theory Spec2Isabelle
  imports Main
begin

section \<open>JavaScript containers\<close>

text \<open>
  A JavaScript \<open>Map\<close> with string keys iterates in insertion order; \<open>set\<close> on a key that is
  present replaces the value and keeps the key's position, \<open>set\<close> on a new key appends,
  \<open>delete\<close> removes the entry. It is modelled as an association list whose keys are
  distinct (\<open>Map_ok\<close>), oldest entry first.
\<close>

type_synonym 'v jsmap = "(string \<times> 'v) list"

fun Map_get :: "'v jsmap \<Rightarrow> string \<Rightarrow> 'v option" where
  "Map_get [] k = None"
| "Map_get ((k', v) # m) k = (if k' = k then Some v else Map_get m k)"

fun Map_set :: "string \<Rightarrow> 'v \<Rightarrow> 'v jsmap \<Rightarrow> 'v jsmap" where
  "Map_set k v [] = [(k, v)]"
| "Map_set k v ((k', v') # m) = (if k' = k then (k, v) # m else (k', v') # Map_set k v m)"

fun Map_delete :: "string \<Rightarrow> 'v jsmap \<Rightarrow> 'v jsmap" where
  "Map_delete k [] = []"
| "Map_delete k ((k', v') # m) = (if k' = k then Map_delete k m else (k', v') # Map_delete k m)"

definition Map_keys :: "'v jsmap \<Rightarrow> string list" where
  "Map_keys m = map fst m"

definition Map_size :: "'v jsmap \<Rightarrow> nat" where
  "Map_size m = length m"

definition Map_ok :: "'v jsmap \<Rightarrow> bool" where
  "Map_ok m = distinct (map fst m)"

section \<open>Task payload (types.ts)\<close>

text \<open>
  \<open>VKTaskWithAttemptStatus\<close>. The field \<open>id\<close> is written \<open>id'\<close>. \<open>status\<close> is kept as
  the string the JSON response carries; nullable strings are options.
\<close>

record VKTaskWithAttemptStatus =
  id' :: string
  project_id :: string
  title :: string
  description :: "string option"
  status :: string
  parent_task_attempt :: "string option"
  shared_task_id :: "string option"
  created_at :: string
  updated_at :: string
  has_in_progress_attempt :: bool
  has_merged_attempt :: bool
  last_attempt_failed :: bool
  executor :: "string option"

section \<open>VKStatusPoller\<close>

text \<open>
  The fields of the class, in the order of the source. \<open>onTaskUpdate\<close> records whether the
  callback is non-null; every invocation of the callback is appended to \<open>notified\<close>.
  \<open>projectIds\<close> is a reference to a \<open>Set\<close> object in \<open>setHeap\<close>: \<open>start\<close> allocates a new
  object while a suspended poll cycle keeps iterating the object it began with. A \<open>Set\<close>
  object is the list of its entries in insertion order, and \<open>clear\<close> empties every entry in
  place (\<open>None\<close>), so that an iterator positioned in the list skips them.
  \<open>setNext\<close> is the next free reference.
  \<open>pollTimer\<close> is the handle returned by \<open>window.setTimeout\<close>: the number of the call,
  counted from 1, whose delay is logged in \<open>timeouts\<close>.
  The numeric fields are JavaScript numbers holding small non-negative integers; they are
  natural numbers here (\<open>Math.pow(2, n)\<close> is exact in a double up to \<open>n = 1023\<close> and the
  result of \<open>Math.min\<close> with \<open>maxBackoff\<close> is the same beyond).
\<close>

record VKStatusPoller =
  pollTimer :: "nat option"
  pollInterval :: nat
  baseBackoff :: nat
  maxBackoff :: nat
  currentBackoff :: nat
  consecutiveErrors :: nat
  isPolling :: bool
  onTaskUpdate :: bool
  vkUrl :: string
  projectIds :: nat
  lastKnownStates :: "string jsmap"
  taskProjectMap :: "string jsmap"
  debug :: bool
  maxTrackedTasks :: nat
  activeTaskIds :: "string set"
  setHeap :: "nat \<Rightarrow> string option list"
  setNext :: nat
  notified :: "VKTaskWithAttemptStatus list"
  timeouts :: "nat list"

text \<open>The field initialisers of the class: the state of \<open>new VKStatusPoller()\<close>.\<close>

definition newPoller :: VKStatusPoller where
  "newPoller = \<lparr> pollTimer = None, pollInterval = 5000, baseBackoff = 5000,
     maxBackoff = 60000, currentBackoff = 5000, consecutiveErrors = 0, isPolling = False,
     onTaskUpdate = False, vkUrl = [], projectIds = 0, lastKnownStates = [],
     taskProjectMap = [], debug = False, maxTrackedTasks = 1000, activeTaskIds = {},
     setHeap = (\<lambda>_. []), setNext = 1, notified = [], timeouts = [] \<rparr>"

text \<open>The template literal \<open>`${status}:${executing}`\<close>.\<close>

definition combinedState :: "string \<Rightarrow> bool \<Rightarrow> string" where
  "combinedState st executing = st @ '':'' @ (if executing then ''true'' else ''false'')"

text \<open>\<open>this.onTaskUpdate(task)\<close> under \<open>if (this.onTaskUpdate)\<close>.\<close>

definition notify :: "VKTaskWithAttemptStatus \<Rightarrow> VKStatusPoller \<Rightarrow> VKStatusPoller" where
  "notify task s = (if onTaskUpdate s then s\<lparr>notified := notified s @ [task]\<rparr> else s)"

definition forget :: "string \<Rightarrow> VKStatusPoller \<Rightarrow> VKStatusPoller" where
  "forget taskId s = s\<lparr>lastKnownStates := Map_delete taskId (lastKnownStates s),
                       taskProjectMap := Map_delete taskId (taskProjectMap s)\<rparr>"

definition addProject :: "string \<Rightarrow> VKStatusPoller \<Rightarrow> VKStatusPoller" where
  "addProject projectId s =
     (if projectId \<noteq> [] \<and> Some projectId \<notin> set (setHeap s (projectIds s))
      then s\<lparr>setHeap := (setHeap s)(projectIds s := setHeap s (projectIds s) @ [Some projectId])\<rparr>
      else s)"

definition trackTask :: "string \<Rightarrow> VKStatusPoller \<Rightarrow> VKStatusPoller" where
  "trackTask taskId s = s\<lparr>activeTaskIds := insert taskId (activeTaskIds s)\<rparr>"

definition untrackTask :: "string \<Rightarrow> VKStatusPoller \<Rightarrow> VKStatusPoller" where
  "untrackTask taskId s = forget taskId (s\<lparr>activeTaskIds := activeTaskIds s - {taskId}\<rparr>)"

definition setKnownState :: "string \<Rightarrow> string \<Rightarrow> bool \<Rightarrow> VKStatusPoller \<Rightarrow> VKStatusPoller" where
  "setKnownState taskId st executing s =
     s\<lparr>lastKnownStates := Map_set taskId (combinedState st executing) (lastKnownStates s)\<rparr>"

definition stop :: "VKStatusPoller \<Rightarrow> VKStatusPoller" where
  "stop s = s\<lparr>isPolling := False, pollTimer := None, lastKnownStates := [],
      taskProjectMap := [],
      setHeap := (setHeap s)(projectIds s := map (\<lambda>_. None) (setHeap s (projectIds s))),
      activeTaskIds := {}, consecutiveErrors := 0, currentBackoff := pollInterval s\<rparr>"

subsection \<open>cleanupTerminalTasks\<close>

definition terminalStatuses :: "string set" where
  "terminalStatuses = {''done'', ''cancelled'', ''deleted''}"

text \<open>\<open>state.split(':')[0]\<close>: the text before the first colon.\<close>

definition statusOf :: "string \<Rightarrow> string" where
  "statusOf state = takeWhile (\<lambda>c. c \<noteq> CHR '':'') state"

text \<open>
  The loop over \<open>lastKnownStates.entries()\<close>: the first argument is what the iterator has
  still to visit. The loop deletes only the entry it is visiting, so the entries ahead are
  those of the map when the loop began.
\<close>

fun cleanupLoop :: "string jsmap \<Rightarrow> VKStatusPoller \<Rightarrow> VKStatusPoller" where
  "cleanupLoop [] s = s"
| "cleanupLoop ((taskId, state) # rest) s =
     (if statusOf state \<in> terminalStatuses \<and> taskId \<notin> activeTaskIds s
      then cleanupLoop rest (forget taskId s)
      else cleanupLoop rest s)"

definition cleanupTerminalTasks :: "VKStatusPoller \<Rightarrow> VKStatusPoller" where
  "cleanupTerminalTasks s = cleanupLoop (lastKnownStates s) s"

subsection \<open>poll: handling one project's response\<close>

definition deletedTask :: "string \<Rightarrow> string \<Rightarrow> VKTaskWithAttemptStatus" where
  "deletedTask taskId projectId = \<lparr> id' = taskId, project_id = projectId, title = [],
     description = None, status = ''deleted'', parent_task_attempt = None,
     shared_task_id = None, created_at = [], updated_at = [],
     has_in_progress_attempt = False, has_merged_attempt = False,
     last_attempt_failed = False, executor = None \<rparr>"

text \<open>
  The loop over \<open>taskProjectMap.entries()\<close> (check for deleted tasks). \<open>lastStatus &&\<close> is
  false for a missing entry and for the empty string.
\<close>

fun deletedLoop :: "string jsmap \<Rightarrow> string \<Rightarrow> string set \<Rightarrow> VKStatusPoller \<Rightarrow> VKStatusPoller" where
  "deletedLoop [] projectId currentTaskIds s = s"
| "deletedLoop ((taskId, taskProjectId) # rest) projectId currentTaskIds s =
     (if taskProjectId = projectId \<and> taskId \<notin> currentTaskIds
      then (case Map_get (lastKnownStates s) taskId of
              None \<Rightarrow> deletedLoop rest projectId currentTaskIds s
            | Some lastStatus \<Rightarrow>
                if lastStatus \<noteq> [] \<and> lastStatus \<noteq> ''deleted''
                then deletedLoop rest projectId currentTaskIds
                       (forget taskId (notify (deletedTask taskId projectId) s))
                else deletedLoop rest projectId currentTaskIds s)
      else deletedLoop rest projectId currentTaskIds s)"

text \<open>The loop over the tasks of the response (status or execution state changes).\<close>

definition checkTask :: "string \<Rightarrow> VKTaskWithAttemptStatus \<Rightarrow> VKStatusPoller \<Rightarrow> VKStatusPoller" where
  "checkTask projectId task s =
     (let currentState = combinedState (status task) (has_in_progress_attempt task);
          lastState = Map_get (lastKnownStates s) (id' task);
          s1 = (if lastState \<noteq> None \<and> lastState \<noteq> Some currentState then notify task s else s)
      in s1\<lparr>lastKnownStates := Map_set (id' task) currentState (lastKnownStates s1),
            taskProjectMap := Map_set (id' task) projectId (taskProjectMap s1)\<rparr>)"

fun tasksLoop :: "VKTaskWithAttemptStatus list \<Rightarrow> string \<Rightarrow> VKStatusPoller \<Rightarrow> VKStatusPoller" where
  "tasksLoop [] projectId s = s"
| "tasksLoop (task # rest) projectId s = tasksLoop rest projectId (checkTask projectId task s)"

text \<open>
  The capacity eviction: the loop over \<open>lastKnownStates.keys()\<close> with its counter
  \<open>removed\<close>, under \<open>if (this.lastKnownStates.size > this.maxTrackedTasks)\<close>.
\<close>

fun evictLoop :: "string list \<Rightarrow> nat \<Rightarrow> nat \<Rightarrow> VKStatusPoller \<Rightarrow> VKStatusPoller" where
  "evictLoop [] entriesToRemove removed s = s"
| "evictLoop (key # rest) entriesToRemove removed s =
     (if removed \<ge> entriesToRemove then s
      else if key \<notin> activeTaskIds s
      then evictLoop rest entriesToRemove (removed + 1) (forget key s)
      else evictLoop rest entriesToRemove removed s)"

definition evictOverLimit :: "VKStatusPoller \<Rightarrow> VKStatusPoller" where
  "evictOverLimit s =
     (if Map_size (lastKnownStates s) > maxTrackedTasks s
      then evictLoop (Map_keys (lastKnownStates s))
             (Map_size (lastKnownStates s) - maxTrackedTasks s) 0 s
      else s)"

text \<open>The body of \<open>if (response.status === 200)\<close> for the tasks of one project.\<close>

definition processResponse :: "string \<Rightarrow> VKTaskWithAttemptStatus list \<Rightarrow> VKStatusPoller \<Rightarrow> VKStatusPoller" where
  "processResponse projectId tasks s =
     evictOverLimit (cleanupTerminalTasks (tasksLoop tasks projectId
       (deletedLoop (taskProjectMap s) projectId (set (map id' tasks)) s)))"

subsection \<open>poll: the cycle\<close>

text \<open>
  What \<open>await requestUrl(...)\<close> and the reading of the response give back inside the
  \<open>try\<close> block: a response with its status and its \<open>json.data\<close> (\<open>None\<close> when the body or
  its \<open>data\<close> is missing, read as \<open>[]\<close>), or an exception, which the \<open>catch\<close> turns into
  \<open>hasError = true\<close>.
\<close>

datatype fetch_result = Response nat "VKTaskWithAttemptStatus list option" | Throws

text \<open>
  \<open>poll\<close> is an async function with one suspension point, the \<open>await\<close> of the request. A
  call runs to \<open>Finished\<close> or stops at the request for a project: \<open>Suspended ref i p e\<close>
  holds the \<open>Set\<close> object the \<open>for ... of\<close> iterates, the position of the iterator, the
  project requested and the local \<open>hasError\<close>.
\<close>

datatype poll_run = Finished | Suspended nat nat string bool

text \<open>The iterator of a \<open>Set\<close>: the first entry at or after position \<open>i\<close> that is not emptied.\<close>

fun firstEntry :: "string option list \<Rightarrow> nat \<Rightarrow> (nat \<times> string) option" where
  "firstEntry [] i = None"
| "firstEntry (None # es) i = firstEntry es (Suc i)"
| "firstEntry (Some p # es) i = Some (i, p)"

definition iterNext :: "string option list \<Rightarrow> nat \<Rightarrow> (nat \<times> string) option" where
  "iterNext es i = firstEntry (drop i es) i"

text \<open>The end of \<open>poll\<close>: backoff handling and the scheduling of the next poll.\<close>

definition pollBackoff :: "bool \<Rightarrow> VKStatusPoller \<Rightarrow> VKStatusPoller" where
  "pollBackoff hasError s =
     (if hasError
      then let s1 = s\<lparr>consecutiveErrors := consecutiveErrors s + 1\<rparr>
           in s1\<lparr>currentBackoff := min (baseBackoff s1 * 2 ^ (consecutiveErrors s1 - 1))
                                      (maxBackoff s1)\<rparr>
      else s\<lparr>consecutiveErrors := 0, currentBackoff := pollInterval s\<rparr>)"

definition schedule :: "VKStatusPoller \<Rightarrow> VKStatusPoller" where
  "schedule s =
     (if isPolling s
      then s\<lparr>timeouts := timeouts s @ [currentBackoff s],
             pollTimer := Some (length (timeouts s) + 1)\<rparr>
      else s)"

text \<open>
  The head of the \<open>for ... of\<close> loop: the iterator is advanced; when it is done the loop is
  left for the backoff handling, otherwise the body begins with the check of
  \<open>isPolling\<close> and then issues the request.
\<close>

definition pollLoop :: "nat \<Rightarrow> nat \<Rightarrow> bool \<Rightarrow> VKStatusPoller \<Rightarrow> VKStatusPoller \<times> poll_run" where
  "pollLoop ref i hasError s =
     (case iterNext (setHeap s ref) i of
        None \<Rightarrow> (schedule (pollBackoff hasError s), Finished)
      | Some (j, projectId) \<Rightarrow>
          if \<not> isPolling s then (s, Finished)
          else (s, Suspended ref j projectId hasError))"

definition poll :: "VKStatusPoller \<Rightarrow> VKStatusPoller \<times> poll_run" where
  "poll s = (if \<not> isPolling s then (s, Finished) else pollLoop (projectIds s) 0 False s)"

text \<open>The continuation of a suspended \<open>poll\<close> when its request settles with \<open>r\<close>.\<close>

fun pollResume :: "poll_run \<Rightarrow> fetch_result \<Rightarrow> VKStatusPoller \<Rightarrow> VKStatusPoller \<times> poll_run" where
  "pollResume Finished r s = (s, Finished)"
| "pollResume (Suspended ref j projectId hasError) Throws s = pollLoop ref (j + 1) True s"
| "pollResume (Suspended ref j projectId hasError) (Response st d) s =
     pollLoop ref (j + 1) hasError
       (if st = 200
        then processResponse projectId (case d of None \<Rightarrow> [] | Some tasks \<Rightarrow> tasks) s
        else s)"

text \<open>
  \<open>start\<close>: \<open>vkUrl.replace(/\/$/, '')\<close> drops one trailing slash; the new \<open>Set\<close> keeps the
  first occurrence of each non-empty identifier. The call of \<open>this.poll()\<close> runs to its
  first suspension.
\<close>

definition dropSlash :: "string \<Rightarrow> string" where
  "dropSlash u = (if u \<noteq> [] \<and> last u = CHR ''/'' then butlast u else u)"

definition start :: "string \<Rightarrow> string list \<Rightarrow> bool \<Rightarrow> VKStatusPoller \<Rightarrow> VKStatusPoller \<times> poll_run" where
  "start url ids dbg s =
     (if isPolling s then (s, Finished)
      else
        let entries = map Some (rev (remdups (rev (filter (\<lambda>i. i \<noteq> []) ids))));
            s1 = s\<lparr>vkUrl := dropSlash url,
                   setHeap := (setHeap s)(setNext s := entries),
                   projectIds := setNext s, setNext := setNext s + 1,
                   onTaskUpdate := True, debug := dbg, isPolling := True\<rparr>
        in if entries = [] then (s1, Finished) else poll s1)"

text \<open>
  A whole cycle whose requests settle, in order, with the results \<open>rs\<close>, nothing else
  happening in between.
\<close>

fun drive :: "fetch_result list \<Rightarrow> VKStatusPoller \<times> poll_run \<Rightarrow> VKStatusPoller \<times> poll_run" where
  "drive [] (s, run) = (s, run)"
| "drive (r # rs) (s, Finished) = (s, Finished)"
| "drive (r # rs) (s, run) = drive rs (pollResume run r s)"

text \<open>
  Consecutive cycles: each timer that fires calls \<open>poll\<close>, and the cycle it begins is
  driven by the results of its requests.
\<close>

fun cycles :: "fetch_result list list \<Rightarrow> VKStatusPoller \<Rightarrow> VKStatusPoller" where
  "cycles [] s = s"
| "cycles (rs # rss) s = cycles rss (fst (drive rs (poll s)))"

text \<open>The entries of a \<open>Set\<close> object that are not emptied: its elements, in order.\<close>

fun elements :: "string option list \<Rightarrow> string list" where
  "elements [] = []"
| "elements (None # es) = elements es"
| "elements (Some p # es) = p # elements es"

text \<open>
  The part of the engine that the handling of a response leaves alone: everything but the
  two maps and the log of notifications.
\<close>

definition ctl :: "VKStatusPoller \<Rightarrow> VKStatusPoller" where
  "ctl s = s\<lparr>lastKnownStates := [], taskProjectMap := [], notified := []\<rparr>"

text \<open>What a cycle never changes: the running flag, the project set and the three intervals.\<close>

definition cfg :: "VKStatusPoller \<Rightarrow> bool \<times> string option list \<times> nat \<times> nat \<times> nat" where
  "cfg s = (isPolling s, setHeap s (projectIds s), baseBackoff s, maxBackoff s, pollInterval s)"

section \<open>Example states\<close>

text \<open>A new engine started on the project \<open>P\<close>, its first request in flight.\<close>

definition started :: VKStatusPoller where
  "started = fst (start ''http://vk/'' [''P''] False newPoller)"

text \<open>
  An engine whose cap is two entries and that tracks four tasks of project \<open>P\<close>, the oldest
  of them active and done.
\<close>

definition overCap :: VKStatusPoller where
  "overCap = newPoller\<lparr>maxTrackedTasks := 2, activeTaskIds := {''T1''},
     lastKnownStates := [(''T1'', ''done:false''), (''T2'', ''done:false''),
                         (''T3'', ''todo:false''), (''T4'', ''todo:true'')],
     taskProjectMap := [(''T1'', ''P''), (''T2'', ''P''), (''T3'', ''P''), (''T4'', ''P'')]\<rparr>"

text \<open>
  The same engine with three of its four tasks active: more active entries than the cap.
\<close>

definition overCapActive :: VKStatusPoller where
  "overCapActive = overCap\<lparr>activeTaskIds := {''T1'', ''T2'', ''T3''}\<rparr>"

text \<open>
  A new engine given \<open>n\<close> tracked tasks with distinct identifiers, the oldest of them
  active; with the cap of the source, 1000, it is over the cap for \<open>n = 1002\<close>.
\<close>

definition taskKey :: "nat \<Rightarrow> string" where
  "taskKey i = replicate (Suc i) (CHR ''t'')"

definition tracking :: "nat \<Rightarrow> VKStatusPoller" where
  "tracking n = newPoller\<lparr>activeTaskIds := {taskKey 0},
     lastKnownStates := map (\<lambda>i. (taskKey i, ''todo:false'')) [0..<n]\<rparr>"

section \<open>What the specification says of the capacity eviction\<close>

text \<open>
  \<open>spec_victims\<close> follows the words of the specification, not the code: when the number of
  tracked tasks exceeds the cap, the entries to remove are the oldest-inserted identifiers
  absent from the active set, as many as the excess asks for and as there are.
\<close>

definition spec_victims :: "VKStatusPoller \<Rightarrow> string list" where
  "spec_victims s = take (Map_size (lastKnownStates s) - maxTrackedTasks s)
                      (filter (\<lambda>k. k \<notin> activeTaskIds s) (Map_keys (lastKnownStates s)))"

section \<open>Notions used to state the properties\<close>

text \<open>The combined state that \<open>poll\<close> computes for a task of a response.\<close>

definition stateOf :: "VKTaskWithAttemptStatus \<Rightarrow> string" where
  "stateOf task = combinedState (status task) (has_in_progress_attempt task)"

text \<open>
  \<open>spec_changes\<close> follows the words of the specification, not the code: along a sequence
  of observations of one identifier, a notification fires for an observation if and only
  if a state was recorded before it and the new combined state differs from the
  immediately preceding recorded one.
\<close>

fun spec_changes :: "string option \<Rightarrow> VKTaskWithAttemptStatus list \<Rightarrow> VKTaskWithAttemptStatus list" where
  "spec_changes prev [] = []"
| "spec_changes prev (task # rest) =
     (if prev \<noteq> None \<and> prev \<noteq> Some (stateOf task) then [task] else [])
       @ spec_changes (Some (stateOf task)) rest"

text \<open>A task of a response whose combined state differs from the one recorded in \<open>m\<close>.\<close>

definition changed :: "string jsmap \<Rightarrow> VKTaskWithAttemptStatus \<Rightarrow> bool" where
  "changed m t = (Map_get m (id' t) \<noteq> None \<and> Map_get m (id' t) \<noteq> Some (stateOf t))"

text \<open>
  The test \<open>lastStatus && lastStatus !== 'deleted'\<close> of the deletion check, and the
  identifiers, among the entries \<open>es\<close> of \<open>taskProjectMap\<close>, that the deletion check reports
  for project \<open>p\<close> when the response holds the identifiers \<open>cur\<close>.
\<close>

definition reportable :: "string jsmap \<Rightarrow> string \<Rightarrow> bool" where
  "reportable m k = (case Map_get m k of None \<Rightarrow> False
                     | Some lastStatus \<Rightarrow> lastStatus \<noteq> [] \<and> lastStatus \<noteq> ''deleted'')"

definition deletedIds :: "string jsmap \<Rightarrow> string \<Rightarrow> string set \<Rightarrow> string jsmap \<Rightarrow> string list" where
  "deletedIds es p cur m =
     map fst (filter (\<lambda>e. snd e = p \<and> fst e \<notin> cur \<and> reportable m (fst e)) es)"

text \<open>The identifiers that the terminal-state cleanup drops among the entries \<open>es\<close>.\<close>

definition terminalIds :: "string jsmap \<Rightarrow> string set \<Rightarrow> string list" where
  "terminalIds es act =
     map fst (filter (\<lambda>e. statusOf (snd e) \<in> terminalStatuses \<and> fst e \<notin> act) es)"

section \<open>Further example states\<close>

text \<open>A task of project \<open>P\<close> as a response carries it.\<close>

definition task :: "string \<Rightarrow> string \<Rightarrow> bool \<Rightarrow> VKTaskWithAttemptStatus" where
  "task i st e = (deletedTask i ''P'')\<lparr>title := ''a task'', status := st, has_in_progress_attempt := e\<rparr>"

text \<open>
  The started engine after \<open>trackTask('T1')\<close> and a response for \<open>P\<close> that holds \<open>T1\<close>, in
  the phase deleted and in the phase todo; and the started engine seeded with
  \<open>setKnownState('T1', 'todo', false)\<close>.
\<close>

definition trackedDeleted :: VKStatusPoller where
  "trackedDeleted = processResponse ''P'' [task ''T1'' ''deleted'' False] (trackTask ''T1'' started)"

definition trackedTodo :: VKStatusPoller where
  "trackedTodo = processResponse ''P'' [task ''T1'' ''todo'' False] (trackTask ''T1'' started)"

definition seeded :: VKStatusPoller where
  "seeded = setKnownState ''T1'' ''todo'' False started"

section \<open>FrontmatterManager\<close>

text \<open>
  The frontmatter of a document is a mapping from field names to values, and the argument
  \<open>updates\<close> of \<open>update\<close> is read through \<open>Object.entries\<close>: the list of its keys with their
  values, \<open>None\<close> for a key whose value is \<open>undefined\<close>. The fields of \<open>VKFrontmatter\<close> are
  strings.
\<close>

type_synonym frontmatter = "string \<Rightarrow> string option"

type_synonym fields = "(string \<times> string option) list"

text \<open>
  The callback that \<open>update\<close> hands to \<open>processFrontMatter\<close>: the loop over the entries
  that assigns \<open>frontmatter[key] = value\<close> when \<open>value !== undefined\<close>.
\<close>

fun mergeFields :: "fields \<Rightarrow> frontmatter \<Rightarrow> frontmatter" where
  "mergeFields [] frontmatter = frontmatter"
| "mergeFields ((key, value) # rest) frontmatter =
     mergeFields rest (case value of None \<Rightarrow> frontmatter
                       | Some v \<Rightarrow> frontmatter(key := Some v))"

text \<open>
  The promises of \<open>update\<close>. A call of \<open>update\<close> builds one chain
  \<open>existingQueue.then(async () => { await processFrontMatter(...) }).finally(...)\<close>, and the
  calls are numbered in the order in which they are made: call \<open>n\<close> owns the promise
  \<open>updatePromise\<close> number \<open>n\<close>. A settled promise is fulfilled or rejected with an error.
  The stages of a call follow the chain:
  \<^item> \<open>Chained\<close>: \<open>existingQueue\<close> has not settled, or its reaction has not run yet;
  \<^item> \<open>Writing\<close>: the callback of \<open>then\<close> has run and \<open>processFrontMatter\<close> is in flight;
  \<^item> \<open>ThenSettled\<close>: the promise of \<open>then\<close> has settled, with the outcome of the write or,
    when \<open>existingQueue\<close> was rejected, with its error (a \<open>then\<close> without a rejection
    handler does not call its callback and passes the rejection on);
  \<^item> \<open>FinallyRun\<close>: the callback of \<open>finally\<close> has run;
  \<^item> \<open>Settled\<close>: \<open>updatePromise\<close> has settled, with the same outcome, and
    \<open>await updatePromise\<close> returns to the caller or throws.
\<close>

datatype outcome = Fulfilled | Rejected string

datatype stage = Chained | Writing | ThenSettled outcome | FinallyRun outcome | Settled outcome

text \<open>
  The manager and what surrounds it. \<open>updateQueues\<close> maps a path to the promise stored
  for it. For call \<open>n\<close>, \<open>callPath\<close> and \<open>callUpdates\<close> are its arguments and
  \<open>existingQueue\<close> the promise it found in the map (\<open>None\<close> for \<open>Promise.resolve()\<close>).
  \<open>vault\<close> is the persisted frontmatter of every path. \<open>processFrontMatter\<close> belongs to
  the host application; it is taken as a read of the frontmatter when it is called
  (\<open>snapshot\<close>), followed, when it succeeds, by a write of the frontmatter that the callback
  produced from what was read. \<open>writeLog\<close> lists the calls of \<open>processFrontMatter\<close> in
  the order in which they began.
\<close>

record FrontmatterManager =
  updateQueues :: "string \<Rightarrow> nat option"
  calls :: nat
  callPath :: "nat \<Rightarrow> string"
  callUpdates :: "nat \<Rightarrow> fields"
  existingQueue :: "nat \<Rightarrow> nat option"
  stage :: "nat \<Rightarrow> stage"
  snapshot :: "nat \<Rightarrow> frontmatter"
  vault :: "string \<Rightarrow> frontmatter"
  writeLog :: "nat list"

definition newManager :: "(string \<Rightarrow> frontmatter) \<Rightarrow> FrontmatterManager" where
  "newManager v = \<lparr> updateQueues = (\<lambda>_. None), calls = 0, callPath = (\<lambda>_. []),
     callUpdates = (\<lambda>_. []), existingQueue = (\<lambda>_. None), stage = (\<lambda>_. Chained),
     snapshot = (\<lambda>_ _. None), vault = v, writeLog = [] \<rparr>"

text \<open>
  The synchronous part of \<open>update\<close>: the lookup of the queue, the construction of the
  chain and \<open>this.updateQueues.set(filePath, updatePromise)\<close>.
\<close>

definition update :: "string \<Rightarrow> fields \<Rightarrow> FrontmatterManager \<Rightarrow> FrontmatterManager" where
  "update filePath updates m =
     (let n = calls m
      in m\<lparr>calls := n + 1,
           callPath := (callPath m)(n := filePath),
           callUpdates := (callUpdates m)(n := updates),
           existingQueue := (existingQueue m)(n := updateQueues m filePath),
           stage := (stage m)(n := Chained),
           updateQueues := (updateQueues m)(filePath := Some n)\<rparr>)"

text \<open>
  The reaction of \<open>then\<close>, which runs once \<open>existingQueue\<close> has settled: on fulfilment the
  callback begins the merge-write; on rejection the callback is skipped and the promise of
  \<open>then\<close> is rejected with the same error.
\<close>

definition beginWrite :: "nat \<Rightarrow> FrontmatterManager \<Rightarrow> FrontmatterManager" where
  "beginWrite n m = m\<lparr>stage := (stage m)(n := Writing),
                       snapshot := (snapshot m)(n := vault m (callPath m n)),
                       writeLog := writeLog m @ [n]\<rparr>"

definition thenReaction :: "nat \<Rightarrow> FrontmatterManager \<Rightarrow> FrontmatterManager option" where
  "thenReaction n m =
     (if n < calls m \<and> stage m n = Chained
      then (case existingQueue m n of
              None \<Rightarrow> Some (beginWrite n m)
            | Some q \<Rightarrow>
                (case stage m q of
                   Settled Fulfilled \<Rightarrow> Some (beginWrite n m)
                 | Settled (Rejected e) \<Rightarrow>
                     Some (m\<lparr>stage := (stage m)(n := ThenSettled (Rejected e))\<rparr>)
                 | _ \<Rightarrow> None))
      else None)"

text \<open>
  \<open>processFrontMatter\<close> settles: it fulfils, having written the merged frontmatter, or it
  rejects with an error and writes nothing.
\<close>

definition writeSettles :: "nat \<Rightarrow> string option \<Rightarrow> FrontmatterManager \<Rightarrow> FrontmatterManager option" where
  "writeSettles n err m =
     (if n < calls m \<and> stage m n = Writing
      then (case err of
              None \<Rightarrow>
                Some (m\<lparr>vault := (vault m)(callPath m n :=
                                    mergeFields (callUpdates m n) (snapshot m n)),
                        stage := (stage m)(n := ThenSettled Fulfilled)\<rparr>)
            | Some e \<Rightarrow> Some (m\<lparr>stage := (stage m)(n := ThenSettled (Rejected e))\<rparr>))
      else None)"

text \<open>
  The callback of \<open>finally\<close>: it removes the queue entry if it still holds this call's
  promise. Then \<open>updatePromise\<close> settles.
\<close>

definition finallyReaction :: "nat \<Rightarrow> FrontmatterManager \<Rightarrow> FrontmatterManager option" where
  "finallyReaction n m =
     (if n < calls m
      then (case stage m n of
              ThenSettled out \<Rightarrow>
                Some (m\<lparr>updateQueues :=
                          (if updateQueues m (callPath m n) = Some n
                           then (updateQueues m)(callPath m n := None)
                           else updateQueues m),
                        stage := (stage m)(n := FinallyRun out)\<rparr>)
            | _ \<Rightarrow> None)
      else None)"

definition settle :: "nat \<Rightarrow> FrontmatterManager \<Rightarrow> FrontmatterManager option" where
  "settle n m =
     (if n < calls m
      then (case stage m n of
              FinallyRun out \<Rightarrow> Some (m\<lparr>stage := (stage m)(n := Settled out)\<rparr>)
            | _ \<Rightarrow> None)
      else None)"

text \<open>
  What can happen to a manager, one event at a time; an event that cannot happen in a state
  gives \<open>None\<close>. A run is a sequence of events: the calls of \<open>update\<close> interleaved in any
  order with the reactions and the completions of the writes.
\<close>

datatype event =
    Update string fields
  | ThenReaction nat
  | WriteSettles nat "string option"
  | FinallyReaction nat
  | Settle nat

fun step :: "event \<Rightarrow> FrontmatterManager \<Rightarrow> FrontmatterManager option" where
  "step (Update filePath updates) m = Some (update filePath updates m)"
| "step (ThenReaction n) m = thenReaction n m"
| "step (WriteSettles n err) m = writeSettles n err m"
| "step (FinallyReaction n) m = finallyReaction n m"
| "step (Settle n) m = settle n m"

fun runEvents :: "event list \<Rightarrow> FrontmatterManager \<Rightarrow> FrontmatterManager option" where
  "runEvents [] m = Some m"
| "runEvents (ev # evs) m = (case step ev m of None \<Rightarrow> None | Some m' \<Rightarrow> runEvents evs m')"

section \<open>Invariants of the update queues\<close>

text \<open>A stage at which the callback of \<open>finally\<close> has run; the outcome known at a stage.\<close>

fun cleaned :: "stage \<Rightarrow> bool" where
  "cleaned (FinallyRun out) = True"
| "cleaned (Settled out) = True"
| "cleaned _ = False"

fun outcomeOf :: "stage \<Rightarrow> outcome option" where
  "outcomeOf (ThenSettled out) = Some out"
| "outcomeOf (FinallyRun out) = Some out"
| "outcomeOf (Settled out) = Some out"
| "outcomeOf _ = None"

text \<open>
  \<open>linked\<close>: the promise a call found in the map belongs to the latest earlier call for
  the same path. \<open>fresh\<close>: a call that found no entry has no earlier call for its path
  that is not cleaned up. \<open>tails\<close>: the entry of a path is its latest call, and a path
  without entry has only cleaned-up calls. \<open>ordered\<close>: a call that has left \<open>Chained\<close>
  has only cleaned-up earlier calls for its path.
\<close>

definition linked :: "nat \<Rightarrow> (nat \<Rightarrow> string) \<Rightarrow> (nat \<Rightarrow> nat option) \<Rightarrow> bool" where
  "linked c pa ex \<longleftrightarrow>
     (\<forall>n<c. \<forall>q. ex n = Some q \<longrightarrow>
        q < n \<and> pa q = pa n \<and> (\<forall>k. q < k \<and> k < n \<longrightarrow> pa k \<noteq> pa n))"

definition fresh :: "nat \<Rightarrow> (nat \<Rightarrow> string) \<Rightarrow> (nat \<Rightarrow> nat option) \<Rightarrow> (nat \<Rightarrow> stage) \<Rightarrow> bool" where
  "fresh c pa ex st \<longleftrightarrow>
     (\<forall>n<c. ex n = None \<longrightarrow> (\<forall>k<n. pa k = pa n \<longrightarrow> cleaned (st k)))"

definition tails :: "(string \<Rightarrow> nat option) \<Rightarrow> nat \<Rightarrow> (nat \<Rightarrow> string) \<Rightarrow> (nat \<Rightarrow> stage) \<Rightarrow> bool" where
  "tails uq c pa st \<longleftrightarrow>
     (\<forall>p. case uq p of
             None \<Rightarrow> \<forall>k<c. pa k = p \<longrightarrow> cleaned (st k)
           | Some t \<Rightarrow> t < c \<and> pa t = p \<and> (\<forall>k. t < k \<and> k < c \<longrightarrow> pa k \<noteq> p))"

definition ordered :: "nat \<Rightarrow> (nat \<Rightarrow> string) \<Rightarrow> (nat \<Rightarrow> stage) \<Rightarrow> bool" where
  "ordered c pa st \<longleftrightarrow>
     (\<forall>n<c. \<forall>k<n. pa k = pa n \<and> st n \<noteq> Chained \<longrightarrow> cleaned (st k))"

definition chainOk :: "FrontmatterManager \<Rightarrow> bool" where
  "chainOk m \<longleftrightarrow>
     linked (calls m) (callPath m) (existingQueue m) \<and>
     fresh (calls m) (callPath m) (existingQueue m) (stage m) \<and>
     tails (updateQueues m) (calls m) (callPath m) (stage m) \<and>
     ordered (calls m) (callPath m) (stage m)"

text \<open>
  \<open>wrote\<close>: a call that began its merge-write followed no promise or a fulfilled one.
  \<open>skipped\<close>: a call that left \<open>Chained\<close> without a merge-write followed a rejected
  promise and carries its error.
\<close>

definition wrote :: "nat \<Rightarrow> (nat \<Rightarrow> nat option) \<Rightarrow> (nat \<Rightarrow> stage) \<Rightarrow> nat list \<Rightarrow> bool" where
  "wrote c ex st wl \<longleftrightarrow>
     (\<forall>n<c. n \<in> set wl \<longrightarrow>
        st n \<noteq> Chained \<and> (\<forall>q. ex n = Some q \<longrightarrow> st q = Settled Fulfilled))"

definition skipped :: "nat \<Rightarrow> (nat \<Rightarrow> nat option) \<Rightarrow> (nat \<Rightarrow> stage) \<Rightarrow> nat list \<Rightarrow> bool" where
  "skipped c ex st wl \<longleftrightarrow>
     (\<forall>n<c. n \<notin> set wl \<and> st n \<noteq> Chained \<longrightarrow>
        (\<exists>q e. ex n = Some q \<and> st q = Settled (Rejected e) \<and>
               outcomeOf (st n) = Some (Rejected e)))"

definition logOk :: "FrontmatterManager \<Rightarrow> bool" where
  "logOk m \<longleftrightarrow>
     (\<forall>n\<in>set (writeLog m). n < calls m) \<and>
     wrote (calls m) (existingQueue m) (stage m) (writeLog m) \<and>
     skipped (calls m) (existingQueue m) (stage m) (writeLog m)"

text \<open>The value that \<open>mergeFields\<close> leaves in a field: that of the last entry that defines it.\<close>

fun lastDefined :: "fields \<Rightarrow> string \<Rightarrow> string option" where
  "lastDefined [] k = None"
| "lastDefined ((key, value) # rest) k =
     (case lastDefined rest k of
        Some v \<Rightarrow> Some v
      | None \<Rightarrow> if key = k then value else None)"

text \<open>
  \<open>snapOk\<close>: what a write in flight has read is still what is persisted. \<open>fifo\<close>: the
  writes for a path began in the order of the calls. \<open>lastWins\<close>: when a call was
  fulfilled and no later call for its path began a write, the fields it defines are
  persisted with its values.
\<close>

definition snapOk :: "FrontmatterManager \<Rightarrow> bool" where
  "snapOk m \<longleftrightarrow>
     (\<forall>n<calls m. stage m n = Writing \<longrightarrow> snapshot m n = vault m (callPath m n))"

definition fifo :: "FrontmatterManager \<Rightarrow> bool" where
  "fifo m \<longleftrightarrow> (\<forall>p. sorted_wrt (<) (filter (\<lambda>n. callPath m n = p) (writeLog m)))"

definition lastWins :: "FrontmatterManager \<Rightarrow> bool" where
  "lastWins m \<longleftrightarrow>
     (\<forall>n<calls m.
        outcomeOf (stage m n) = Some Fulfilled \<and>
        (\<forall>k. n < k \<and> k < calls m \<and> callPath m k = callPath m n \<longrightarrow> k \<notin> set (writeLog m)) \<longrightarrow>
        (\<forall>key v. lastDefined (callUpdates m n) key = Some v \<longrightarrow>
                  vault m (callPath m n) key = Some v))"

definition inv :: "FrontmatterManager \<Rightarrow> bool" where
  "inv m \<longleftrightarrow> chainOk m \<and> logOk m \<and> snapOk m \<and> fifo m \<and> lastWins m"

text \<open>
  \<open>mayWrite\<close>: the promise that a call follows lets the callback of \<open>then\<close> run: the call
  found no entry in the map, or the promise it found was fulfilled. \<open>idle\<close>: nothing
  remains to run, no reaction is ready and no merge-write is in flight.
\<close>

definition mayWrite :: "FrontmatterManager \<Rightarrow> nat \<Rightarrow> bool" where
  "mayWrite m n \<longleftrightarrow>
     (case existingQueue m n of None \<Rightarrow> True | Some q \<Rightarrow> stage m q = Settled Fulfilled)"

definition idle :: "FrontmatterManager \<Rightarrow> bool" where
  "idle m \<longleftrightarrow>
     (\<forall>n<calls m. thenReaction n m = None \<and> writeSettles n None m = None \<and>
                  finallyReaction n m = None \<and> settle n m = None)"

text \<open>
  What remains to happen to the calls made so far: every event other than a call of
  \<open>update\<close> moves one call one or two stages forward.
\<close>

fun rank :: "stage \<Rightarrow> nat" where
  "rank Chained = 0"
| "rank Writing = 1"
| "rank (ThenSettled out) = 2"
| "rank (FinallyRun out) = 3"
| "rank (Settled out) = 4"

definition remaining :: "FrontmatterManager \<Rightarrow> nat" where
  "remaining m = (\<Sum>n<calls m. 4 - rank (stage m n))"

section \<open>Example runs\<close>

text \<open>
  Two calls of \<open>update\<close> for one document, then either both writes succeed, or the first
  write fails with the error \<open>EIO\<close>.
\<close>

definition noVault :: "string \<Rightarrow> frontmatter" where
  "noVault = (\<lambda>_ _. None)"

definition twoUpdates :: "event list" where
  "twoUpdates = [Update ''a.md'' [(''vk_status'', Some ''a'')],
                 Update ''a.md'' [(''vk_status'', Some ''b'')]]"

definition bothSucceed :: "event list" where
  "bothSucceed = twoUpdates @
     [ThenReaction 0, WriteSettles 0 None, FinallyReaction 0, Settle 0,
      ThenReaction 1, WriteSettles 1 None, FinallyReaction 1, Settle 1]"

definition firstFails :: "event list" where
  "firstFails = twoUpdates @
     [ThenReaction 0, WriteSettles 0 (Some ''EIO''), FinallyReaction 0, Settle 0,
      ThenReaction 1, FinallyReaction 1, Settle 1]"

text \<open>What is observed at the end of a run.\<close>

definition report :: "FrontmatterManager \<Rightarrow> nat list \<times> stage \<times> stage \<times> string option" where
  "report m = (writeLog m, stage m 0, stage m 1, vault m ''a.md'' ''vk_status'')"

text \<open>A document with three fields and an update that defines one field and leaves one undefined.\<close>

definition noteVault :: "string \<Rightarrow> frontmatter" where
  "noteVault = (\<lambda>_. [''title'' \<mapsto> ''Note'', ''vk_status'' \<mapsto> ''todo'', ''vk_branch'' \<mapsto> ''main''])"

definition oneWriting :: "event list" where
  "oneWriting = [Update ''a.md'' [(''vk_status'', Some ''done''), (''vk_branch'', None)],
                 ThenReaction 0]"

definition report3 :: "FrontmatterManager \<Rightarrow> nat list \<times> nat option \<times> nat option \<times> nat option \<times> stage list" where
  "report3 m = (writeLog m, existingQueue m 1, existingQueue m 2, updateQueues m ''a.md'',
                map (stage m) [0, 1, 2])"

text \<open>
  Further runs for one document: the first write succeeds and settles while the second call
  waits; the second update is requested while the first write is in flight and that write
  fails; three updates whose writes all succeed.
\<close>

definition firstSucceeds :: "event list" where
  "firstSucceeds = twoUpdates @
     [ThenReaction 0, WriteSettles 0 None, FinallyReaction 0, Settle 0]"

definition firstFailsInFlight :: "event list" where
  "firstFailsInFlight =
     [Update ''a.md'' [(''vk_status'', Some ''a'')], ThenReaction 0,
      Update ''a.md'' [(''vk_status'', Some ''b'')],
      WriteSettles 0 (Some ''EIO''), FinallyReaction 0, Settle 0,
      ThenReaction 1, FinallyReaction 1, Settle 1]"

definition threeSucceed :: "event list" where
  "threeSucceed =
     [Update ''a.md'' [(''vk_status'', Some ''a'')],
      Update ''a.md'' [(''vk_status'', Some ''b'')],
      Update ''a.md'' [(''vk_status'', Some ''c'')],
      ThenReaction 0, WriteSettles 0 None, FinallyReaction 0, Settle 0,
      ThenReaction 1, WriteSettles 1 None, FinallyReaction 1, Settle 1,
      ThenReaction 2, WriteSettles 2 None, FinallyReaction 2, Settle 2]"

section \<open>Unfolding the definitions on examples\<close>

lemmas poll_eval = started_def start_def newPoller_def poll_def pollLoop_def iterNext_def Let_def dropSlash_def
  schedule_def pollBackoff_def

lemmas response_eval = processResponse_def evictOverLimit_def cleanupTerminalTasks_def checkTask_def
  notify_def forget_def statusOf_def terminalStatuses_def Map_size_def Map_keys_def
  combinedState_def deletedTask_def task_def trackTask_def

lemmas manager_eval = newManager_def noVault_def update_def beginWrite_def thenReaction_def
  writeSettles_def finallyReaction_def settle_def Let_def twoUpdates_def

section \<open>Container lemmas\<close>

lemma Map_get_delete: "Map_get (Map_delete k m) k' = (if k' = k then None else Map_get m k')"
  by (induction m) auto

lemma Map_get_set: "Map_get (Map_set k v m) k' = (if k' = k then Some v else Map_get m k')"
  by (induction m) auto

lemma Map_get_None: "Map_get m k = None \<longleftrightarrow> k \<notin> set (Map_keys m)"
  by (induction m) (auto simp: Map_keys_def split: if_splits)

lemma Map_keys_delete: "Map_keys (Map_delete k m) = removeAll k (Map_keys m)"
  by (induction m) (auto simp: Map_keys_def)

lemma Map_ok_delete: "Map_ok m \<Longrightarrow> Map_ok (Map_delete k m)"
  by (simp add: Map_ok_def Map_keys_delete [unfolded Map_keys_def] distinct_removeAll)

lemma set_keys_set: "set (Map_keys (Map_set k v m)) = insert k (set (Map_keys m))"
  by (induction m) (force simp: Map_keys_def)+

lemma Map_ok_set: "Map_ok m \<Longrightarrow> Map_ok (Map_set k v m)"
proof (induction m)
  case Nil
  then show ?case by (simp add: Map_ok_def)
next
  case (Cons p m)
  obtain k' v' where p: "p = (k', v')" by (cases p)
  from Cons have ok: "Map_ok (Map_set k v m)" and notin: "k' \<notin> set (Map_keys m)"
    by (auto simp: Map_ok_def Map_keys_def p)
  show ?case
  proof (cases "k' = k")
    case True
    with Cons.prems show ?thesis by (simp add: Map_ok_def p)
  next
    case False
    with notin have "k' \<notin> set (Map_keys (Map_set k v m))" by (simp add: set_keys_set)
    with ok False show ?thesis by (simp add: Map_ok_def Map_keys_def p)
  qed
qed

section \<open>Active-set exemption\<close>

lemma forget_fields [simp]:
  "activeTaskIds (forget k s) = activeTaskIds s"
  "lastKnownStates (forget k s) = Map_delete k (lastKnownStates s)"
  "taskProjectMap (forget k s) = Map_delete k (taskProjectMap s)"
  "maxTrackedTasks (forget k s) = maxTrackedTasks s"
  "notified (forget k s) = notified s"
  "onTaskUpdate (forget k s) = onTaskUpdate s"
  by (simp_all add: forget_def)

lemma cleanupLoop_active:
  "x \<in> activeTaskIds s \<Longrightarrow>
     Map_get (lastKnownStates (cleanupLoop es s)) x = Map_get (lastKnownStates s) x \<and>
     Map_get (taskProjectMap (cleanupLoop es s)) x = Map_get (taskProjectMap s) x \<and>
     activeTaskIds (cleanupLoop es s) = activeTaskIds s"
proof (induction es arbitrary: s)
  case Nil
  then show ?case by simp
next
  case (Cons e es)
  obtain k st where e: "e = (k, st)" by (cases e)
  show ?case
  proof (cases "statusOf st \<in> terminalStatuses \<and> k \<notin> activeTaskIds s")
    case True
    with Cons.prems have "k \<noteq> x" by auto
    moreover have "x \<in> activeTaskIds (forget k s)" using Cons.prems by simp
    ultimately show ?thesis using Cons.IH [of "forget k s"] True
      by (simp add: e Map_get_delete)
  next
    case False
    then show ?thesis using Cons.IH [OF Cons.prems] by (auto simp: e)
  qed
qed

lemma evictLoop_active:
  "x \<in> activeTaskIds s \<Longrightarrow>
     Map_get (lastKnownStates (evictLoop ks n r s)) x = Map_get (lastKnownStates s) x \<and>
     Map_get (taskProjectMap (evictLoop ks n r s)) x = Map_get (taskProjectMap s) x \<and>
     activeTaskIds (evictLoop ks n r s) = activeTaskIds s"
proof (induction ks arbitrary: r s)
  case Nil
  then show ?case by simp
next
  case (Cons k ks)
  show ?case
  proof (cases "\<not> n \<le> r \<and> k \<notin> activeTaskIds s")
    case True
    with Cons.prems have "k \<noteq> x" by auto
    moreover have "x \<in> activeTaskIds (forget k s)" using Cons.prems by simp
    ultimately show ?thesis using Cons.IH [of "forget k s" "r + 1"] True
      by (simp add: Map_get_delete)
  next
    case False
    then show ?thesis using Cons.IH [OF Cons.prems, of r] by auto
  qed
qed

text \<open>
  \<^bold>\<open>C7\<close>. A task identifier in \<open>activeTaskIds\<close> keeps its entry in \<open>lastKnownStates\<close> and in
  \<open>taskProjectMap\<close> through the terminal-state cleanup, through the capacity eviction, and
  through both in the order in which \<open>poll\<close> runs them, whatever its recorded state (so also
  for the phases done, cancelled and deleted) and wherever its entry stands in the map.
\<close>

theorem active_exempt_from_cleanup_and_eviction:
  assumes "x \<in> activeTaskIds s"
  shows "Map_get (lastKnownStates (cleanupTerminalTasks s)) x = Map_get (lastKnownStates s) x \<and>
         Map_get (taskProjectMap (cleanupTerminalTasks s)) x = Map_get (taskProjectMap s) x \<and>
         Map_get (lastKnownStates (evictOverLimit s)) x = Map_get (lastKnownStates s) x \<and>
         Map_get (taskProjectMap (evictOverLimit s)) x = Map_get (taskProjectMap s) x \<and>
         Map_get (lastKnownStates (evictOverLimit (cleanupTerminalTasks s))) x
           = Map_get (lastKnownStates s) x \<and>
         Map_get (taskProjectMap (evictOverLimit (cleanupTerminalTasks s))) x
           = Map_get (taskProjectMap s) x"
proof -
  note c = cleanupLoop_active [OF assms, of "lastKnownStates s", folded cleanupTerminalTasks_def]
  have e: "Map_get (lastKnownStates (evictOverLimit t)) x = Map_get (lastKnownStates t) x \<and>
           Map_get (taskProjectMap (evictOverLimit t)) x = Map_get (taskProjectMap t) x"
    if "x \<in> activeTaskIds t" for t
    using evictLoop_active [OF that] by (simp add: evictOverLimit_def)
  from c assms have "x \<in> activeTaskIds (cleanupTerminalTasks s)" by simp
  from e [OF this] e [OF assms] c show ?thesis by simp
qed

text \<open>
  The active task \<open>T1\<close> that a response has put in the terminal phase deleted stays
  tracked. An active task in the terminal phase done, oldest in a map that is over a cap of
  two entries: the cleanup drops the inactive done task, the eviction the oldest inactive
  entry, and the active task stays.
\<close>

theorem active_exempt_from_cleanup_and_eviction_witness:
  "''T1'' \<in> activeTaskIds trackedDeleted \<and>
   lastKnownStates (evictOverLimit (cleanupTerminalTasks trackedDeleted))
     = [(''T1'', ''deleted:false'')] \<and>
   ''T1'' \<in> activeTaskIds overCap \<and>
   lastKnownStates (evictOverLimit (cleanupTerminalTasks overCap))
     = [(''T1'', ''done:false''), (''T4'', ''todo:true'')] \<and>
   Map_get (taskProjectMap (evictOverLimit (cleanupTerminalTasks overCap))) ''T1'' = Some ''P''"
  using active_exempt_from_cleanup_and_eviction [of "''T1''" overCap]
    active_exempt_from_cleanup_and_eviction [of "''T1''" trackedDeleted]
  by (simp add: overCap_def trackedDeleted_def poll_eval response_eval)

section \<open>The poll cycle and its backoff\<close>

lemma ctl_forget [simp]: "ctl (forget k s) = ctl s"
  by (simp add: ctl_def forget_def)

lemma ctl_notify [simp]: "ctl (notify t s) = ctl s"
  by (simp add: ctl_def notify_def)

lemma ctl_checkTask [simp]: "ctl (checkTask p t s) = ctl s"
  by (simp add: ctl_def checkTask_def notify_def Let_def)

lemma ctl_tasksLoop [simp]: "ctl (tasksLoop ts p s) = ctl s"
  by (induction ts arbitrary: s) simp_all

lemma ctl_deletedLoop [simp]: "ctl (deletedLoop es p c s) = ctl s"
  by (induction es p c s rule: deletedLoop.induct) (simp_all split: option.splits)

lemma ctl_cleanupLoop [simp]: "ctl (cleanupLoop es s) = ctl s"
  by (induction es s rule: cleanupLoop.induct) simp_all

lemma ctl_evictLoop [simp]: "ctl (evictLoop ks n r s) = ctl s"
  by (induction ks n r s rule: evictLoop.induct) simp_all

lemma ctl_processResponse [simp]: "ctl (processResponse p ts s) = ctl s"
  by (simp add: processResponse_def evictOverLimit_def cleanupTerminalTasks_def)

lemma ctl_eqD:
  assumes "ctl s' = ctl s"
  shows "isPolling s' = isPolling s" and "setHeap s' = setHeap s"
    and "projectIds s' = projectIds s" and "baseBackoff s' = baseBackoff s"
    and "maxBackoff s' = maxBackoff s" and "pollInterval s' = pollInterval s"
    and "consecutiveErrors s' = consecutiveErrors s" and "currentBackoff s' = currentBackoff s"
    and "timeouts s' = timeouts s" and "pollTimer s' = pollTimer s"
    and "activeTaskIds s' = activeTaskIds s" and "onTaskUpdate s' = onTaskUpdate s"
    and "maxTrackedTasks s' = maxTrackedTasks s"
  using arg_cong [OF assms, of isPolling] arg_cong [OF assms, of setHeap]
    arg_cong [OF assms, of projectIds] arg_cong [OF assms, of baseBackoff]
    arg_cong [OF assms, of maxBackoff] arg_cong [OF assms, of pollInterval]
    arg_cong [OF assms, of consecutiveErrors] arg_cong [OF assms, of currentBackoff]
    arg_cong [OF assms, of timeouts] arg_cong [OF assms, of pollTimer]
    arg_cong [OF assms, of activeTaskIds] arg_cong [OF assms, of onTaskUpdate]
    arg_cong [OF assms, of maxTrackedTasks]
  by (simp_all add: ctl_def)

lemma firstEntry_None: "firstEntry es i = None \<longleftrightarrow> elements es = []"
  by (induction es i rule: firstEntry.induct) simp_all

lemma firstEntry_Some:
  "firstEntry es i = Some (j, p) \<Longrightarrow>
     i \<le> j \<and> elements es = p # elements (drop (Suc (j - i)) es)"
proof (induction es i rule: firstEntry.induct)
  case (2 es i)
  then have le: "Suc i \<le> j" and el: "elements es = p # elements (drop (Suc (j - Suc i)) es)"
    by auto
  from le have "Suc (j - Suc i) = j - i" by simp
  with le el show ?case by simp
qed simp_all

lemma iterNext_None: "iterNext es i = None \<longleftrightarrow> elements (drop i es) = []"
  by (simp add: iterNext_def firstEntry_None)

lemma iterNext_Some:
  assumes "iterNext es i = Some (j, p)"
  shows "elements (drop i es) = p # elements (drop (j + 1) es)"
proof -
  from assms have a: "i \<le> j" and b: "elements (drop i es) = p # elements (drop (Suc (j - i)) (drop i es))"
    using firstEntry_Some [of "drop i es" i j p] by (auto simp: iterNext_def)
  from a have "Suc (j - i) + i = j + 1" by simp
  with b show ?thesis by (simp del: drop_Suc add: add.commute)
qed


lemma drive_pollLoop:
  "isPolling s \<Longrightarrow> length rs = length (elements (drop i (setHeap s ref))) \<Longrightarrow>
   \<exists>s'. drive rs (pollLoop ref i he s)
           = (schedule (pollBackoff (he \<or> Throws \<in> set rs) s'), Finished) \<and> ctl s' = ctl s"
proof (induction rs arbitrary: i he s)
  case Nil
  then have "iterNext (setHeap s ref) i = None" by (simp add: iterNext_None)
  then show ?case by (auto simp: pollLoop_def)
next
  case (Cons r rs)
  from Cons.prems(2) have "iterNext (setHeap s ref) i \<noteq> None"
    by (auto simp: iterNext_None)
  then obtain j p where nx: "iterNext (setHeap s ref) i = Some (j, p)" by auto
  from iterNext_Some [OF nx] Cons.prems(2)
  have len: "length rs = length (elements (drop (j + 1) (setHeap s ref)))" by simp
  from nx Cons.prems(1) have susp: "pollLoop ref i he s = (s, Suspended ref j p he)"
    by (simp add: pollLoop_def)
  show ?case
  proof (cases r)
    case Throws
    from Cons.IH [OF Cons.prems(1) len, of True] susp Throws show ?thesis by auto
  next
    case (Response st d)
    define s2 where "s2 = (if st = 200
        then processResponse p (case d of None \<Rightarrow> [] | Some tasks \<Rightarrow> tasks) s else s)"
    have c: "ctl s2 = ctl s" by (simp add: s2_def)
    note ctl_eqD(1,2) [OF c]
    with Cons.prems(1) len have "isPolling s2" "length rs = length (elements (drop (j + 1) (setHeap s2 ref)))"
      by simp_all
    from Cons.IH [OF this, of he] obtain s' where
      "drive rs (pollLoop ref (j + 1) he s2)
         = (schedule (pollBackoff (he \<or> Throws \<in> set rs) s'), Finished)" "ctl s' = ctl s2"
      by blast
    with c susp Response show ?thesis by (auto simp: s2_def)
  qed
qed

lemma cycle_result:
  assumes "isPolling s" "length rs = length (elements (setHeap s (projectIds s)))"
  shows "\<exists>s'. fst (drive rs (poll s)) = schedule (pollBackoff (Throws \<in> set rs) s') \<and> ctl s' = ctl s"
  using drive_pollLoop [of s rs 0 "projectIds s" False] assms by (auto simp: poll_def)


lemma cycle_fields:
  assumes "isPolling s" "length rs = length (elements (setHeap s (projectIds s)))"
  defines "s1 \<equiv> fst (drive rs (poll s))"
  shows "cfg s1 = cfg s"
    and "consecutiveErrors s1 = (if Throws \<in> set rs then consecutiveErrors s + 1 else 0)"
    and "currentBackoff s1 = (if Throws \<in> set rs
           then min (baseBackoff s * 2 ^ consecutiveErrors s) (maxBackoff s) else pollInterval s)"
    and "timeouts s1 = timeouts s @ [currentBackoff s1]"
    and "pollTimer s1 = Some (length (timeouts s) + 1)"
proof -
  from cycle_result [OF assms(1,2)] obtain s' where
    s1: "s1 = schedule (pollBackoff (Throws \<in> set rs) s')" and c: "ctl s' = ctl s"
    unfolding s1_def by blast
  note f = ctl_eqD [OF c]
  show "cfg s1 = cfg s"
    using assms(1) f by (simp add: s1 cfg_def schedule_def pollBackoff_def Let_def)
  show "consecutiveErrors s1 = (if Throws \<in> set rs then consecutiveErrors s + 1 else 0)"
    using assms(1) f by (simp add: s1 schedule_def pollBackoff_def Let_def)
  show "currentBackoff s1 = (if Throws \<in> set rs
           then min (baseBackoff s * 2 ^ consecutiveErrors s) (maxBackoff s) else pollInterval s)"
    using assms(1) f by (simp add: s1 schedule_def pollBackoff_def Let_def)
  show "timeouts s1 = timeouts s @ [currentBackoff s1]"
    using assms(1) f by (simp add: s1 schedule_def pollBackoff_def Let_def)
  show "pollTimer s1 = Some (length (timeouts s) + 1)"
    using assms(1) f by (simp add: s1 schedule_def pollBackoff_def Let_def)
qed

lemma cycles_failing:
  assumes "isPolling s"
    and "\<forall>rs\<in>set rss. length rs = length (elements (setHeap s (projectIds s))) \<and> Throws \<in> set rs"
  shows "cfg (cycles rss s) = cfg s \<and>
         consecutiveErrors (cycles rss s) = consecutiveErrors s + length rss \<and>
         (rss \<noteq> [] \<longrightarrow>
            currentBackoff (cycles rss s)
              = min (baseBackoff s * 2 ^ (consecutiveErrors s + length rss - 1)) (maxBackoff s) \<and>
            timeouts (cycles rss s) \<noteq> [] \<and>
            last (timeouts (cycles rss s)) = currentBackoff (cycles rss s))"
  using assms
proof (induction rss arbitrary: s)
  case Nil
  then show ?case by simp
next
  case (Cons rs rss)
  define s1 where "s1 = fst (drive rs (poll s))"
  from Cons.prems have a: "isPolling s"
    "length rs = length (elements (setHeap s (projectIds s)))" "Throws \<in> set rs" by auto
  note cf = cycle_fields [OF a(1,2), folded s1_def]
  from cf(1) a(1) have p1: "isPolling s1" and h1: "setHeap s1 (projectIds s1) = setHeap s (projectIds s)"
    and b1: "baseBackoff s1 = baseBackoff s" "maxBackoff s1 = maxBackoff s"
    by (auto simp: cfg_def)
  from Cons.prems(2) h1 have
    "\<forall>rs\<in>set rss. length rs = length (elements (setHeap s1 (projectIds s1))) \<and> Throws \<in> set rs"
    by simp
  note ih = Cons.IH [OF p1 this]
  have ce1: "consecutiveErrors s1 = consecutiveErrors s + 1" using cf(2) a(3) by simp
  have cb1: "currentBackoff s1 = min (baseBackoff s * 2 ^ consecutiveErrors s) (maxBackoff s)"
    using cf(3) a(3) by simp
  show ?case
  proof (cases "rss = []")
    case True
    then show ?thesis using cf(1) ce1 cb1 cf(4) by (simp add: s1_def [symmetric])
  next
    case False
    with ih cf(1) ce1 b1 show ?thesis by (simp add: s1_def [symmetric])
  qed
qed


lemma cycles_append: "cycles (a @ b) s = cycles b (cycles a s)"
  by (induction a arbitrary: s) simp_all

text \<open>
  \<^bold>\<open>C6\<close>. Starting from a running engine whose error counter is zero, with base 5000 ms and
  maximum 60000 ms: after \<open>N \<ge> 1\<close> consecutive cycles, each of which had a request that
  failed, the counter is \<open>N\<close> and the interval computed, the delay of the timer scheduled
  last, is \<open>min (5000 * 2 ^ (N - 1)) 60000\<close>; one further cycle without a failed request
  sets the counter to zero and the interval to 5000 ms.
\<close>

theorem backoff_after_failing_cycles:
  assumes "isPolling s" and "baseBackoff s = 5000" and "maxBackoff s = 60000"
    and "pollInterval s = 5000" and "consecutiveErrors s = 0"
    and "rss \<noteq> []"
    and "\<forall>rs\<in>set rss. length rs = length (elements (setHeap s (projectIds s))) \<and> Throws \<in> set rs"
    and "length ok = length (elements (setHeap s (projectIds s)))" and "Throws \<notin> set ok"
  shows "consecutiveErrors (cycles rss s) = length rss \<and>
         currentBackoff (cycles rss s) = min (5000 * 2 ^ (length rss - 1)) 60000 \<and>
         last (timeouts (cycles rss s)) = min (5000 * 2 ^ (length rss - 1)) 60000 \<and>
         consecutiveErrors (cycles (rss @ [ok]) s) = 0 \<and>
         currentBackoff (cycles (rss @ [ok]) s) = 5000 \<and>
         last (timeouts (cycles (rss @ [ok]) s)) = 5000"
proof -
  define t where "t = cycles rss s"
  define n where "n = length (elements (setHeap s (projectIds s)))"
  note r = cycles_failing [OF assms(1,7), folded t_def]
  from r have f1: "cfg t = cfg s" by (rule conjunct1)
  from r have f2: "consecutiveErrors t = consecutiveErrors s + length rss" by blast
  from r assms(6) have f3: "currentBackoff t
      = min (baseBackoff s * 2 ^ (consecutiveErrors s + length rss - 1)) (maxBackoff s)"
    by blast
  from r assms(6) have f4: "last (timeouts t) = currentBackoff t" by blast
  have e2: "consecutiveErrors t = length rss" by (simp only: f2 assms(5) add_0)
  have e3: "currentBackoff t = min (5000 * 2 ^ (length rss - 1)) 60000"
    by (simp only: f3 assms(2,3,5) add_0)
  from f1 assms(1) have p1: "isPolling t" by (simp add: cfg_def)
  from f1 assms(8) have p2: "length ok = length (elements (setHeap t (projectIds t)))"
    by (simp add: cfg_def)
  from f1 assms(4) have p3: "pollInterval t = 5000" by (simp add: cfg_def)
  define u where "u = fst (drive ok (poll t))"
  note g = cycle_fields [OF p1 p2, folded u_def]
  have u: "cycles (rss @ [ok]) s = u" by (simp add: cycles_append t_def u_def)
  have g2: "consecutiveErrors u = 0" using g(2) assms(9) by simp
  have g3: "currentBackoff u = 5000" using g(3) assms(9) p3 by simp
  have g4: "last (timeouts u) = 5000" using g(4) g3 by simp
  show ?thesis
    unfolding u t_def [symmetric] using e2 e3 f4 g2 g3 g4 by (simp only: simp_thms)
qed


text \<open>
  Three failing cycles of an engine started on one project schedule the next polls after
  5000, 10000 and 20000 ms; a successful fourth cycle returns to 5000 ms.
\<close>

theorem backoff_after_failing_cycles_witness:
  "isPolling started \<and> consecutiveErrors started = 0 \<and>
   elements (setHeap started (projectIds started)) = [''P''] \<and>
   timeouts (cycles [[Throws], [Throws], [Throws]] started) = [5000, 10000, 20000] \<and>
   currentBackoff (cycles [[Throws], [Throws], [Throws]] started) = min (5000 * 2 ^ (3 - 1)) 60000 \<and>
   consecutiveErrors (cycles ([[Throws], [Throws], [Throws]] @ [[Response 200 (Some [])]]) started) = 0 \<and>
   currentBackoff (cycles ([[Throws], [Throws], [Throws]] @ [[Response 200 (Some [])]]) started) = 5000"
proof -
  have h: "isPolling started" "baseBackoff started = 5000" "maxBackoff started = 60000"
    "pollInterval started = 5000" "consecutiveErrors started = 0"
    "[[Throws], [Throws], [Throws]] \<noteq> []"
    "\<forall>rs\<in>set [[Throws], [Throws], [Throws]].
       length rs = length (elements (setHeap started (projectIds started))) \<and> Throws \<in> set rs"
    "length [Response 200 (Some [])] = length (elements (setHeap started (projectIds started)))"
    "Throws \<notin> set [Response 200 (Some [])]"
    by (simp_all add: poll_eval)
  have e: "elements (setHeap started (projectIds started)) = [''P'']"
    "timeouts (cycles [[Throws], [Throws], [Throws]] started) = [5000, 10000, 20000]"
    by (simp_all add: poll_eval)
  from backoff_after_failing_cycles [OF h] h(1,5) e show ?thesis by simp
qed

section \<open>Capacity eviction\<close>

lemma Map_delete_filter: "Map_delete k m = filter (\<lambda>e. fst e \<noteq> k) m"
  by (induction m) auto

lemma evictLoop_maps:
  "lastKnownStates (evictLoop ks n r s)
     = filter (\<lambda>e. fst e \<notin> set (take (n - r) (filter (\<lambda>k. k \<notin> activeTaskIds s) ks)))
         (lastKnownStates s) \<and>
   taskProjectMap (evictLoop ks n r s)
     = filter (\<lambda>e. fst e \<notin> set (take (n - r) (filter (\<lambda>k. k \<notin> activeTaskIds s) ks)))
         (taskProjectMap s)"
proof (induction ks arbitrary: r s)
  case Nil
  then show ?case by simp
next
  case (Cons k ks)
  show ?case
  proof (cases "n \<le> r")
    case True
    then show ?thesis by simp
  next
    case False
    then obtain d where d: "n - r = Suc d" and d': "n - (r + 1) = d"
      by (cases "n - r") auto
    show ?thesis
    proof (cases "k \<in> activeTaskIds s")
      case True
      with False Cons.IH [of r s] show ?thesis by simp
    next
      case notact: False
      have "(\<lambda>e. fst e \<notin> set V \<and> fst e \<noteq> k) = (\<lambda>e. fst e \<noteq> k \<and> fst e \<notin> set V)" for V :: "string list"
        by auto
      with False notact Cons.IH [of "r + 1" "forget k s"] d d' show ?thesis
        by (simp add: Map_delete_filter conj_commute)
    qed
  qed
qed

lemma length_filter_notin:
  assumes "distinct xs" "distinct V" "set V \<subseteq> set xs"
  shows "length (filter (\<lambda>k. k \<notin> set V) xs) = length xs - length V"
proof -
  have "length (filter (\<lambda>k. k \<notin> set V) xs) = card (set (filter (\<lambda>k. k \<notin> set V) xs))"
    using assms(1) by (metis distinct_card distinct_filter)
  also have "set (filter (\<lambda>k. k \<notin> set V) xs) = set xs - set V" by auto
  also have "card (set xs - set V) = card (set xs) - card (set V)"
    using assms(3) by (simp add: card_Diff_subset)
  finally show ?thesis using assms(1,2) by (simp add: distinct_card)
qed

lemma length_filter_fst: "length (filter (\<lambda>e. P (fst e)) m) = length (filter P (map fst m))"
  by (induction m) auto

text \<open>
  \<^bold>\<open>C8\<close>. The capacity eviction removes from both maps exactly the identifiers of
  \<open>spec_victims\<close>: the oldest-inserted entries absent from the active set, up to the
  excess over the cap. When the count was over the cap, the count afterwards is the larger
  of the cap and the number of active entries: at most the cap, unless more entries than
  the cap are active, and then it exceeds the cap by exactly that surplus of active
  entries. A map within the cap keeps its size.
\<close>

theorem eviction_bound:
  assumes "Map_ok (lastKnownStates s)"
  shows "lastKnownStates (evictOverLimit s)
           = filter (\<lambda>e. fst e \<notin> set (spec_victims s)) (lastKnownStates s) \<and>
         taskProjectMap (evictOverLimit s)
           = filter (\<lambda>e. fst e \<notin> set (spec_victims s)) (taskProjectMap s) \<and>
         Map_size (lastKnownStates (evictOverLimit s))
           = (if Map_size (lastKnownStates s) > maxTrackedTasks s
              then max (maxTrackedTasks s)
                     (length (filter (\<lambda>k. k \<in> activeTaskIds s) (Map_keys (lastKnownStates s))))
              else Map_size (lastKnownStates s))"
proof -
  let ?m = "lastKnownStates s" and ?cap = "maxTrackedTasks s"
  let ?in = "filter (\<lambda>k. k \<notin> activeTaskIds s) (Map_keys ?m)"
  let ?act = "filter (\<lambda>k. k \<in> activeTaskIds s) (Map_keys ?m)"
  have maps: "lastKnownStates (evictOverLimit s) = filter (\<lambda>e. fst e \<notin> set (spec_victims s)) ?m \<and>
        taskProjectMap (evictOverLimit s) = filter (\<lambda>e. fst e \<notin> set (spec_victims s)) (taskProjectMap s)"
  proof (cases "Map_size ?m > ?cap")
    case True
    with evictLoop_maps [of "Map_keys ?m" "Map_size ?m - ?cap" 0 s] show ?thesis
      by (simp add: evictOverLimit_def spec_victims_def)
  next
    case False
    then show ?thesis by (simp add: evictOverLimit_def spec_victims_def)
  qed
  have dk: "distinct (Map_keys ?m)" using assms by (simp add: Map_ok_def Map_keys_def)
  then have dv: "distinct (spec_victims s)" by (simp add: spec_victims_def)
  have sv: "set (spec_victims s) \<subseteq> set (Map_keys ?m)"
    using set_take_subset [of "Map_size ?m - ?cap" ?in] by (auto simp: spec_victims_def)
  have "length (filter (\<lambda>e. fst e \<notin> set (spec_victims s)) ?m)
          = length (Map_keys ?m) - length (spec_victims s)"
    using length_filter_notin [OF dk dv sv] length_filter_fst [of "\<lambda>k. k \<notin> set (spec_victims s)" ?m]
    by (simp add: Map_keys_def)
  moreover have "length (spec_victims s) = min (Map_size ?m - ?cap) (length ?in)"
    by (simp add: spec_victims_def min.commute)
  moreover have "length ?act + length ?in = Map_size ?m"
    using sum_length_filter_compl [of "\<lambda>k. k \<in> activeTaskIds s" "Map_keys ?m"]
    by (simp add: Map_keys_def Map_size_def)
  ultimately have size: "Map_size ?m > ?cap \<Longrightarrow>
      Map_size (lastKnownStates (evictOverLimit s)) = max ?cap (length ?act)"
    using maps by (simp add: Map_size_def Map_keys_def)
  show ?thesis
  proof (cases "Map_size ?m > ?cap")
    case True
    with maps size show ?thesis by simp
  next
    case False
    then have "evictOverLimit s = s" by (simp add: evictOverLimit_def)
    with maps False show ?thesis by simp
  qed
qed


lemma taskKey_inj: "taskKey i = taskKey j \<longleftrightarrow> i = j"
  by (simp add: taskKey_def)

lemma tracking_fields:
  "Map_keys (lastKnownStates (tracking n)) = map taskKey [0..<n]"
  "Map_size (lastKnownStates (tracking n)) = n"
  "maxTrackedTasks (tracking n) = 1000"
  "activeTaskIds (tracking n) = {taskKey 0}"
  by (simp_all add: tracking_def newPoller_def Map_keys_def Map_size_def comp_def)

lemma tracking_ok: "Map_ok (lastKnownStates (tracking n))"
  using tracking_fields(1) [of n]
  by (simp add: Map_ok_def Map_keys_def distinct_map inj_on_def taskKey_inj)

lemma upt_from_0: "[0..<Suc n] = 0 # [1..<Suc n]"
  by (simp add: upt_conv_Cons)

lemma tracking_inactive:
  "filter (\<lambda>k. k \<notin> {taskKey 0}) (map taskKey [0..<Suc n]) = map taskKey [1..<Suc n]"
proof -
  have "filter (\<lambda>i. taskKey i \<noteq> taskKey 0) [1..<Suc n] = [1..<Suc n]"
    by (rule filter_True) (auto simp: taskKey_inj)
  then show ?thesis
    unfolding upt_from_0 by (simp add: filter_map comp_def taskKey_inj del: upt_Suc filter_id_conv)
qed

lemma tracking_active:
  "length (filter (\<lambda>k. k \<in> {taskKey 0}) (map taskKey [0..<Suc n])) = 1"
proof -
  have "filter (\<lambda>i. taskKey i = taskKey 0) [1..<Suc n] = []"
    by (auto simp: taskKey_inj filter_empty_conv)
  then show ?thesis
    unfolding upt_from_0 by (simp add: filter_map comp_def del: upt_Suc)
qed

lemma tracking_victims:
  "spec_victims (tracking (Suc n)) = map taskKey (take (Suc n - 1000) [1..<Suc n])"
proof -
  have "spec_victims (tracking (Suc n))
      = take (Suc n - 1000) (filter (\<lambda>k. k \<notin> {taskKey 0}) (map taskKey [0..<Suc n]))"
    unfolding spec_victims_def tracking_fields ..
  also have "\<dots> = take (Suc n - 1000) (map taskKey [1..<Suc n])"
    by (simp only: tracking_inactive)
  finally show ?thesis by (simp only: take_map)
qed

lemma tracking_1002:
  "Map_ok (lastKnownStates (tracking 1002))"
  "Map_size (lastKnownStates (tracking 1002)) = 1002"
  "maxTrackedTasks (tracking 1002) = 1000"
  "spec_victims (tracking 1002) = [taskKey 1, taskKey 2]"
  "length (filter (\<lambda>k. k \<in> activeTaskIds (tracking 1002))
     (Map_keys (lastKnownStates (tracking 1002)))) = 1"
proof -
  have e: "(1002::nat) = Suc 1001" by simp
  show "Map_ok (lastKnownStates (tracking 1002))" by (rule tracking_ok)
  show "Map_size (lastKnownStates (tracking 1002)) = 1002" by (rule tracking_fields)
  show "maxTrackedTasks (tracking 1002) = 1000" by (rule tracking_fields)
  have "take (Suc 1001 - 1000) [1..<Suc 1001] = take 2 [1..<1002]" by simp
  also have "\<dots> = [1..<1 + 2]" by (rule take_upt) simp
  also have "\<dots> = [1, 2::nat]" by simp
  finally show "spec_victims (tracking 1002) = [taskKey 1, taskKey 2]"
    unfolding e tracking_victims by (simp add: numeral_2_eq_2)
  show "length (filter (\<lambda>k. k \<in> activeTaskIds (tracking 1002))
     (Map_keys (lastKnownStates (tracking 1002)))) = 1"
    unfolding e tracking_fields by (rule tracking_active)
qed

text \<open>
  With the cap of the source and 1002 tracked tasks of which the oldest is active, the
  two oldest inactive entries go and 1000 remain. With four tracked tasks and a cap of
  two: when one task is active the two oldest inactive entries go and the count is the
  cap; when three are active only the inactive entry goes and the count exceeds the cap
  by one.
\<close>

theorem eviction_bound_witness:
  "Map_ok (lastKnownStates (tracking 1002)) \<and>
   Map_size (lastKnownStates (tracking 1002)) = 1002 \<and>
   spec_victims (tracking 1002) = [taskKey 1, taskKey 2] \<and>
   Map_size (lastKnownStates (evictOverLimit (tracking 1002))) = 1000 \<and>
   Map_ok (lastKnownStates overCap) \<and> Map_ok (lastKnownStates overCapActive) \<and>
   spec_victims overCap = [''T2'', ''T3''] \<and>
   lastKnownStates (evictOverLimit overCap) = [(''T1'', ''done:false''), (''T4'', ''todo:true'')] \<and>
   Map_size (lastKnownStates (evictOverLimit overCap)) = 2 \<and>
   spec_victims overCapActive = [''T4''] \<and>
   Map_size (lastKnownStates (evictOverLimit overCapActive)) = 3"
proof -
  from eviction_bound [OF tracking_1002(1)]
  have "Map_size (lastKnownStates (evictOverLimit (tracking 1002)))
      = (if Map_size (lastKnownStates (tracking 1002)) > maxTrackedTasks (tracking 1002)
         then max (maxTrackedTasks (tracking 1002))
                (length (filter (\<lambda>k. k \<in> activeTaskIds (tracking 1002))
                   (Map_keys (lastKnownStates (tracking 1002)))))
         else Map_size (lastKnownStates (tracking 1002)))"
    by blast
  then have big: "Map_size (lastKnownStates (evictOverLimit (tracking 1002))) = 1000"
    by (simp only: tracking_1002) simp
  have h: "Map_ok (lastKnownStates overCap)" "Map_ok (lastKnownStates overCapActive)"
    by (simp_all add: overCap_def overCapActive_def Map_ok_def)
  have v: "spec_victims overCap = [''T2'', ''T3'']" "spec_victims overCapActive = [''T4'']"
    by (simp_all add: spec_victims_def overCap_def overCapActive_def newPoller_def
        Map_size_def Map_keys_def)
  have small: "lastKnownStates (evictOverLimit overCap)
        = [(''T1'', ''done:false''), (''T4'', ''todo:true'')] \<and>
      Map_size (lastKnownStates (evictOverLimit overCap)) = 2 \<and>
      Map_size (lastKnownStates (evictOverLimit overCapActive)) = 3"
    using eviction_bound [OF h(1)] eviction_bound [OF h(2)] v
    by (simp add: overCap_def overCapActive_def newPoller_def Map_size_def Map_keys_def)
  from big small h v tracking_1002(1,2,4) show ?thesis by (simp add: Map_size_def)
qed

section \<open>Change detection and deletion detection\<close>

lemma combinedState_inj:
  "combinedState st e = combinedState st' e' \<longleftrightarrow> st = st' \<and> e = e'"
proof
  assume eq: "combinedState st e = combinedState st' e'"
  have "e = e'"
  proof (rule ccontr)
    assume "e \<noteq> e'"
    then consider "e" "\<not> e'" | "\<not> e" "e'" by auto
    then show False
    proof cases
      case 1
      with eq have "rev (st @ '':true'') = rev (st' @ '':false'')" by (simp add: combinedState_def)
      then show False by simp
    next
      case 2
      with eq have "rev (st @ '':false'') = rev (st' @ '':true'')" by (simp add: combinedState_def)
      then show False by simp
    qed
  qed
  with eq show "st = st' \<and> e = e'" by (simp add: combinedState_def)
qed simp

lemma combinedState_nonempty: "combinedState st e \<noteq> [] \<and> combinedState st e \<noteq> ''deleted''"
proof -
  have "CHR '':'' \<in> set (combinedState st e)" by (simp add: combinedState_def)
  then show ?thesis by auto
qed

lemma checkTask_fields:
  "lastKnownStates (checkTask p t s) = Map_set (id' t) (stateOf t) (lastKnownStates s)"
  "taskProjectMap (checkTask p t s) = Map_set (id' t) p (taskProjectMap s)"
  "onTaskUpdate (checkTask p t s) = onTaskUpdate s"
  "activeTaskIds (checkTask p t s) = activeTaskIds s"
  "notified (checkTask p t s) = notified s @
     (if onTaskUpdate s \<and> Map_get (lastKnownStates s) (id' t) \<noteq> None \<and>
         Map_get (lastKnownStates s) (id' t) \<noteq> Some (stateOf t)
      then [t] else [])"
  by (auto simp: checkTask_def notify_def Let_def stateOf_def)

lemma tasksLoop_same_id:
  assumes "onTaskUpdate s" "\<forall>t\<in>set ts. id' t = x"
  shows "notified (tasksLoop ts p s) = notified s @ spec_changes (Map_get (lastKnownStates s) x) ts"
  using assms
proof (induction ts arbitrary: s)
  case Nil
  then show ?case by simp
next
  case (Cons t ts)
  from Cons.prems have x: "id' t = x" and u: "onTaskUpdate (checkTask p t s)"
    by (simp_all add: checkTask_fields)
  have "Map_get (lastKnownStates (checkTask p t s)) x = Some (stateOf t)"
    by (simp add: checkTask_fields Map_get_set x)
  with Cons.IH [OF u] Cons.prems x show ?case
    by (simp add: checkTask_fields)
qed

lemma tasksLoop_frame:
  "onTaskUpdate (tasksLoop ts p s) = onTaskUpdate s"
  "activeTaskIds (tasksLoop ts p s) = activeTaskIds s"
  by (induction ts arbitrary: s) (simp_all add: checkTask_fields)

lemma tasksLoop_other:
  "x \<notin> id' ` set ts \<Longrightarrow>
     Map_get (lastKnownStates (tasksLoop ts p s)) x = Map_get (lastKnownStates s) x \<and>
     Map_get (taskProjectMap (tasksLoop ts p s)) x = Map_get (taskProjectMap s) x"
  by (induction ts arbitrary: s) (auto simp: checkTask_fields Map_get_set)

lemma tasksLoop_keeps:
  "Map_get (lastKnownStates s) x \<noteq> None \<Longrightarrow> Map_get (lastKnownStates (tasksLoop ts p s)) x \<noteq> None"
  by (induction ts arbitrary: s) (auto simp: checkTask_fields Map_get_set)

lemma tasksLoop_notified:
  assumes "onTaskUpdate s" "distinct (map id' ts)"
  shows "notified (tasksLoop ts p s) = notified s @ filter (changed (lastKnownStates s)) ts"
  using assms
proof (induction ts arbitrary: s)
  case Nil
  then show ?case by simp
next
  case (Cons t ts)
  from Cons.prems have u: "onTaskUpdate (checkTask p t s)" and d: "distinct (map id' ts)"
    by (simp_all add: checkTask_fields)
  from Cons.prems(2) have n: "\<forall>t'\<in>set ts. id' t' \<noteq> id' t"
    by (fastforce simp: image_iff)
  have "filter (changed (lastKnownStates (checkTask p t s))) ts
          = filter (changed (lastKnownStates s)) ts"
    using n by (intro filter_cong) (auto simp: changed_def checkTask_fields Map_get_set)
  moreover have "notified (checkTask p t s)
      = notified s @ (if changed (lastKnownStates s) t then [t] else [])"
    using Cons.prems(1) by (simp add: checkTask_fields changed_def)
  ultimately show ?case using Cons.IH [OF u d] by simp
qed

lemma tasksLoop_notified_sub:
  "\<exists>N. notified (tasksLoop ts p s) = notified s @ N \<and> set N \<subseteq> set ts"
proof (induction ts arbitrary: s)
  case Nil
  then show ?case by simp
next
  case (Cons t ts)
  from Cons.IH [of "checkTask p t s"] obtain N where
    N: "notified (tasksLoop ts p (checkTask p t s)) = notified (checkTask p t s) @ N" "set N \<subseteq> set ts"
    by blast
  then show ?case by (auto simp: checkTask_fields)
qed

lemma Map_get_filter:
  "Map_get (filter (\<lambda>e. fst e \<notin> A) m) x = (if x \<notin> A then Map_get m x else None)"
  by (induction m) auto

lemma Map_get_Some_mem: "Map_get m k = Some v \<Longrightarrow> (k, v) \<in> set m"
  by (induction m) (auto split: if_splits)

lemma notify_fields [simp]:
  "lastKnownStates (notify t s) = lastKnownStates s"
  "taskProjectMap (notify t s) = taskProjectMap s"
  "activeTaskIds (notify t s) = activeTaskIds s"
  "onTaskUpdate (notify t s) = onTaskUpdate s"
  "notified (notify t s) = notified s @ (if onTaskUpdate s then [t] else [])"
  by (simp_all add: notify_def)

lemma deletedLoop_Cons:
  "deletedLoop ((k, q) # es) p cur s =
     deletedLoop es p cur
       (if q = p \<and> k \<notin> cur \<and> reportable (lastKnownStates s) k
        then forget k (notify (deletedTask k p) s) else s)"
  by (simp add: reportable_def split: option.splits)

lemma deletedIds_delete:
  assumes "k \<notin> fst ` set es"
  shows "deletedIds es p cur (Map_delete k m) = deletedIds es p cur m"
proof -
  have "filter (\<lambda>e. snd e = p \<and> fst e \<notin> cur \<and> reportable (Map_delete k m) (fst e)) es
      = filter (\<lambda>e. snd e = p \<and> fst e \<notin> cur \<and> reportable m (fst e)) es"
    using assms by (intro filter_cong) (auto simp: reportable_def Map_get_delete)
  then show ?thesis by (simp add: deletedIds_def)
qed

lemma filter_filter_notin:
  "filter (\<lambda>e. fst e \<notin> set D) (filter (\<lambda>e. fst e \<noteq> k) m) = filter (\<lambda>e. fst e \<notin> set (k # D)) m"
  by (induction m) auto

lemma deletedLoop_result:
  assumes "distinct (map fst es)"
  shows "lastKnownStates (deletedLoop es p cur s)
           = filter (\<lambda>e. fst e \<notin> set (deletedIds es p cur (lastKnownStates s))) (lastKnownStates s) \<and>
         taskProjectMap (deletedLoop es p cur s)
           = filter (\<lambda>e. fst e \<notin> set (deletedIds es p cur (lastKnownStates s))) (taskProjectMap s) \<and>
         notified (deletedLoop es p cur s)
           = notified s @ (if onTaskUpdate s
                           then map (\<lambda>k. deletedTask k p) (deletedIds es p cur (lastKnownStates s))
                           else []) \<and>
         onTaskUpdate (deletedLoop es p cur s) = onTaskUpdate s \<and>
         activeTaskIds (deletedLoop es p cur s) = activeTaskIds s"
  using assms
proof (induction es arbitrary: s)
  case Nil
  then show ?case by (simp add: deletedIds_def)
next
  case (Cons e es)
  obtain k q where e: "e = (k, q)" by (cases e)
  from Cons.prems have d: "distinct (map fst es)" and nk: "k \<notin> fst ` set es" by (auto simp: e)
  show ?case
  proof (cases "q = p \<and> k \<notin> cur \<and> reportable (lastKnownStates s) k")
    case True
    define s' where "s' = forget k (notify (deletedTask k p) s)"
    have ids: "deletedIds (e # es) p cur (lastKnownStates s)
        = k # deletedIds es p cur (lastKnownStates s)"
      using True by (simp add: deletedIds_def e)
    have ids': "deletedIds es p cur (lastKnownStates s') = deletedIds es p cur (lastKnownStates s)"
      using deletedIds_delete [OF nk] by (simp add: s'_def)
    have step: "deletedLoop (e # es) p cur s = deletedLoop es p cur s'"
      using True by (simp add: e deletedLoop_Cons s'_def del: deletedLoop.simps)
    from Cons.IH [OF d, of s'] show ?thesis
      unfolding step ids ids'
      by (simp add: s'_def Map_delete_filter filter_filter_notin)
  next
    case False
    then have ids: "deletedIds (e # es) p cur (lastKnownStates s)
        = deletedIds es p cur (lastKnownStates s)"
      by (auto simp: deletedIds_def e)
    have step: "deletedLoop (e # es) p cur s = deletedLoop es p cur s"
      using False by (auto simp add: e deletedLoop_Cons simp del: deletedLoop.simps)
    from Cons.IH [OF d, of s] show ?thesis unfolding step ids by simp
  qed
qed

lemma cleanupLoop_result:
  "lastKnownStates (cleanupLoop es s)
     = filter (\<lambda>e. fst e \<notin> set (terminalIds es (activeTaskIds s))) (lastKnownStates s) \<and>
   taskProjectMap (cleanupLoop es s)
     = filter (\<lambda>e. fst e \<notin> set (terminalIds es (activeTaskIds s))) (taskProjectMap s) \<and>
   notified (cleanupLoop es s) = notified s \<and>
   activeTaskIds (cleanupLoop es s) = activeTaskIds s"
proof (induction es arbitrary: s)
  case Nil
  then show ?case by (simp add: terminalIds_def)
next
  case (Cons e es)
  obtain k st where e: "e = (k, st)" by (cases e)
  show ?case
  proof (cases "statusOf st \<in> terminalStatuses \<and> k \<notin> activeTaskIds s")
    case True
    then have "terminalIds (e # es) (activeTaskIds s) = k # terminalIds es (activeTaskIds s)"
      by (simp add: terminalIds_def e)
    with Cons.IH [of "forget k s"] True show ?thesis
      by (simp add: e Map_delete_filter filter_filter_notin)
  next
    case False
    then have "terminalIds (e # es) (activeTaskIds s) = terminalIds es (activeTaskIds s)"
      by (auto simp: terminalIds_def e)
    with Cons.IH [of s] False show ?thesis by (auto simp: e)
  qed
qed

lemma evictLoop_notified: "notified (evictLoop ks n r s) = notified s"
  by (induction ks n r s rule: evictLoop.induct) simp_all

lemma processResponse_notified:
  assumes "Map_ok (taskProjectMap s)" "onTaskUpdate s"
  shows "\<exists>N. notified (processResponse p tasks s)
           = notified s @ map (\<lambda>k. deletedTask k p)
               (deletedIds (taskProjectMap s) p (id' ` set tasks) (lastKnownStates s)) @ N \<and>
             set N \<subseteq> set tasks \<and>
             (distinct (map id' tasks) \<longrightarrow> N = filter (changed (lastKnownStates s)) tasks)"
proof -
  let ?cur = "id' ` set tasks"
  let ?D = "deletedIds (taskProjectMap s) p ?cur (lastKnownStates s)"
  define s1 where "s1 = deletedLoop (taskProjectMap s) p (set (map id' tasks)) s"
  define s2 where "s2 = tasksLoop tasks p s1"
  from assms(1) have d: "distinct (map fst (taskProjectMap s))" by (simp add: Map_ok_def)
  note r1 = deletedLoop_result [OF d, of p ?cur s, folded s1_def [simplified]]
  from r1 assms(2) have n1: "notified s1 = notified s @ map (\<lambda>k. deletedTask k p) ?D"
    and u1: "onTaskUpdate s1"
    and l1: "lastKnownStates s1 = filter (\<lambda>e. fst e \<notin> set ?D) (lastKnownStates s)"
    by simp_all
  from tasksLoop_notified_sub [of tasks p s1] obtain N where
    N: "notified s2 = notified s1 @ N" "set N \<subseteq> set tasks" unfolding s2_def by blast
  have "N = filter (changed (lastKnownStates s)) tasks" if dt: "distinct (map id' tasks)"
  proof -
    have "id' t \<notin> set ?D" if "t \<in> set tasks" for t
      using that by (auto simp: deletedIds_def)
    then have "Map_get (lastKnownStates s1) (id' t) = Map_get (lastKnownStates s) (id' t)"
      if "t \<in> set tasks" for t
      using that by (simp add: l1 Map_get_filter)
    then have "filter (changed (lastKnownStates s1)) tasks = filter (changed (lastKnownStates s)) tasks"
      by (intro filter_cong) (simp_all add: changed_def)
    with tasksLoop_notified [OF u1 dt, of p] N(1) show ?thesis by (simp add: s2_def)
  qed
  moreover have "notified (processResponse p tasks s) = notified s2"
    using cleanupLoop_result [of "lastKnownStates s2" s2]
    by (simp add: processResponse_def evictOverLimit_def cleanupTerminalTasks_def
        evictLoop_notified s2_def s1_def)
  ultimately show ?thesis using N n1 by auto
qed

lemma Map_get_mem_distinct:
  "distinct (map fst m) \<Longrightarrow> (k, v) \<in> set m \<Longrightarrow> Map_get m k = Some v"
  by (induction m) (auto simp: rev_image_eqI)

lemma evictOverLimit_None:
  "Map_get (lastKnownStates s) x = None \<Longrightarrow> Map_get (lastKnownStates (evictOverLimit s)) x = None"
  "Map_get (taskProjectMap s) x = None \<Longrightarrow> Map_get (taskProjectMap (evictOverLimit s)) x = None"
  using evictLoop_maps [of "Map_keys (lastKnownStates s)"
      "Map_size (lastKnownStates s) - maxTrackedTasks s" 0 s]
  by (simp_all add: evictOverLimit_def Map_get_filter)

lemma cleanupTerminalTasks_None:
  "Map_get (lastKnownStates s) x = None \<Longrightarrow>
     Map_get (lastKnownStates (cleanupTerminalTasks s)) x = None"
  "Map_get (taskProjectMap s) x = None \<Longrightarrow>
     Map_get (taskProjectMap (cleanupTerminalTasks s)) x = None"
  using cleanupLoop_result [of "lastKnownStates s" s]
  by (simp_all add: cleanupTerminalTasks_def Map_get_filter)

lemma processResponse_deleted:
  assumes "Map_ok (taskProjectMap s)" and "onTaskUpdate s"
    and "Map_get (taskProjectMap s) x = Some p" and "x \<notin> id' ` set tasks"
    and "reportable (lastKnownStates s) x"
  shows "Map_get (lastKnownStates (processResponse p tasks s)) x = None"
    and "Map_get (taskProjectMap (processResponse p tasks s)) x = None"
    and "filter (\<lambda>t. id' t = x) (drop (length (notified s)) (notified (processResponse p tasks s)))
           = [deletedTask x p]"
proof -
  let ?cur = "id' ` set tasks"
  let ?D = "deletedIds (taskProjectMap s) p ?cur (lastKnownStates s)"
  define s1 where "s1 = deletedLoop (taskProjectMap s) p (set (map id' tasks)) s"
  define s2 where "s2 = tasksLoop tasks p s1"
  from assms(1) have d: "distinct (map fst (taskProjectMap s))" by (simp add: Map_ok_def)
  have xD: "x \<in> set ?D"
    using Map_get_Some_mem [OF assms(3)] assms(4,5) by (force simp: deletedIds_def)
  have dD: "distinct ?D" using d by (simp add: deletedIds_def distinct_map_filter)
  note r1 = deletedLoop_result [OF d, of p ?cur s, folded s1_def [simplified]]
  from r1 xD have "Map_get (lastKnownStates s1) x = None" "Map_get (taskProjectMap s1) x = None"
    by (simp_all add: Map_get_filter)
  with tasksLoop_other [OF assms(4), of p s1]
  have "Map_get (lastKnownStates s2) x = None" "Map_get (taskProjectMap s2) x = None"
    by (simp_all add: s2_def)
  then show "Map_get (lastKnownStates (processResponse p tasks s)) x = None"
    and "Map_get (taskProjectMap (processResponse p tasks s)) x = None"
    by (simp_all add: processResponse_def s2_def s1_def evictOverLimit_None
        cleanupTerminalTasks_None)
  from processResponse_notified [OF assms(1,2), of p tasks] obtain N where
    N: "notified (processResponse p tasks s) = notified s @ map (\<lambda>k. deletedTask k p) ?D @ N"
      "set N \<subseteq> set tasks" by blast
  from N(2) assms(4) have "filter (\<lambda>t. id' t = x) N = []" by (auto simp: filter_empty_conv)
  moreover have "filter (\<lambda>t. id' t = x) (map (\<lambda>k. deletedTask k p) D) = [deletedTask x p]"
    if "distinct D" "x \<in> set D" for D
    using that by (induction D) (auto simp: deletedTask_def filter_empty_conv)
  ultimately show "filter (\<lambda>t. id' t = x)
      (drop (length (notified s)) (notified (processResponse p tasks s))) = [deletedTask x p]"
    using N(1) dD xD by simp
qed

lemma processResponse_only:
  assumes "Map_ok (taskProjectMap s)" and "x \<in> activeTaskIds s"
    and "Map_get (lastKnownStates s) x \<noteq> None"
    and "Map_get (lastKnownStates (processResponse p tasks s)) x = None"
  shows "Map_get (taskProjectMap s) x = Some p \<and> x \<notin> id' ` set tasks \<and>
         reportable (lastKnownStates s) x"
proof -
  let ?cur = "id' ` set tasks"
  let ?D = "deletedIds (taskProjectMap s) p ?cur (lastKnownStates s)"
  define s1 where "s1 = deletedLoop (taskProjectMap s) p (set (map id' tasks)) s"
  define s2 where "s2 = tasksLoop tasks p s1"
  from assms(1) have d: "distinct (map fst (taskProjectMap s))" by (simp add: Map_ok_def)
  note r1 = deletedLoop_result [OF d, of p ?cur s, folded s1_def [simplified]]
  have "x \<in> set ?D"
  proof (rule ccontr)
    assume "x \<notin> set ?D"
    with r1 assms(3) have "Map_get (lastKnownStates s1) x \<noteq> None" by (simp add: Map_get_filter)
    then have "Map_get (lastKnownStates s2) x \<noteq> None" unfolding s2_def by (rule tasksLoop_keeps)
    moreover have a2: "x \<in> activeTaskIds s2"
      using r1 assms(2) by (simp add: s2_def tasksLoop_frame)
    ultimately have "Map_get (lastKnownStates (cleanupTerminalTasks s2)) x \<noteq> None"
      and "x \<in> activeTaskIds (cleanupTerminalTasks s2)"
      using cleanupLoop_active [OF a2, of "lastKnownStates s2"]
      by (simp_all add: cleanupTerminalTasks_def)
    then have "Map_get (lastKnownStates (evictOverLimit (cleanupTerminalTasks s2))) x \<noteq> None"
      using evictLoop_active [of x "cleanupTerminalTasks s2"]
      by (simp add: evictOverLimit_def)
    with assms(4) show False by (simp add: processResponse_def s2_def s1_def)
  qed
  then obtain q where "(x, q) \<in> set (taskProjectMap s)" "q = p" "x \<notin> ?cur"
    "reportable (lastKnownStates s) x"
    by (auto simp: deletedIds_def)
  with Map_get_mem_distinct [OF d] show ?thesis by simp
qed

lemma deletedLoop_active_indep:
  "deletedLoop es p cur (s\<lparr>activeTaskIds := A\<rparr>) = (deletedLoop es p cur s)\<lparr>activeTaskIds := A\<rparr>"
proof (induction es arbitrary: s)
  case Nil
  then show ?case by simp
next
  case (Cons e es)
  obtain k q where e: "e = (k, q)" by (cases e)
  have "forget k (notify t (s\<lparr>activeTaskIds := A\<rparr>)) = (forget k (notify t s))\<lparr>activeTaskIds := A\<rparr>" for t
    by (simp add: forget_def notify_def)
  with Cons.IH show ?case by (simp add: e split: option.splits)
qed

lemma reportable_combined: "Map_get m x = Some (combinedState ph e) \<Longrightarrow> reportable m x"
  using combinedState_nonempty [of ph e] by (simp add: reportable_def)

text \<open>
  \<^bold>\<open>C10\<close>, as amended. Let \<open>x\<close> be in \<open>activeTaskIds\<close> with a recorded combined state whose
  phase is not deleted. If \<open>x\<close> is mapped to project \<open>p\<close> and a successful response for \<open>p\<close>
  omits it, the handling of the response removes its combined state and its project
  mapping and emits exactly one notification for \<open>x\<close>, the synthetic deletion. The deletion
  check does not consult the active set: it commutes with any change of \<open>activeTaskIds\<close>.
  The handling of a response clears the state of \<open>x\<close> only on that path; \<open>setKnownState\<close>,
  \<open>trackTask\<close>, \<open>addProject\<close> and \<open>untrackTask\<close> of another identifier keep it; \<open>untrackTask\<close>
  of \<open>x\<close> and \<open>stop\<close> clear it.
\<close>

theorem deletion_ignores_active_set:
  assumes "Map_ok (taskProjectMap s)" and "onTaskUpdate s" and "x \<in> activeTaskIds s"
    and "Map_get (lastKnownStates s) x = Some (combinedState ph e)" and "ph \<noteq> ''deleted''"
  shows "(Map_get (taskProjectMap s) x = Some p \<and> x \<notin> id' ` set tasks \<longrightarrow>
            Map_get (lastKnownStates (processResponse p tasks s)) x = None \<and>
            Map_get (taskProjectMap (processResponse p tasks s)) x = None \<and>
            filter (\<lambda>t. id' t = x)
              (drop (length (notified s)) (notified (processResponse p tasks s)))
              = [deletedTask x p]) \<and>
         deletedLoop (taskProjectMap s) p (id' ` set tasks) (s\<lparr>activeTaskIds := A\<rparr>)
           = (deletedLoop (taskProjectMap s) p (id' ` set tasks) s)\<lparr>activeTaskIds := A\<rparr> \<and>
         (Map_get (lastKnownStates (processResponse p tasks s)) x = None \<longrightarrow>
            Map_get (taskProjectMap s) x = Some p \<and> x \<notin> id' ` set tasks) \<and>
         Map_get (lastKnownStates (setKnownState y ph' e' s)) x \<noteq> None \<and>
         Map_get (lastKnownStates (trackTask y s)) x \<noteq> None \<and>
         Map_get (lastKnownStates (addProject q s)) x \<noteq> None \<and>
         (y \<noteq> x \<longrightarrow> Map_get (lastKnownStates (untrackTask y s)) x \<noteq> None) \<and>
         Map_get (lastKnownStates (untrackTask x s)) x = None \<and>
         Map_get (lastKnownStates (stop s)) x = None"
proof -
  note rep = reportable_combined [OF assms(4)]
  have a: "Map_get (lastKnownStates (processResponse p tasks s)) x = None \<and>
       Map_get (taskProjectMap (processResponse p tasks s)) x = None \<and>
       filter (\<lambda>t. id' t = x) (drop (length (notified s)) (notified (processResponse p tasks s)))
         = [deletedTask x p]"
    if "Map_get (taskProjectMap s) x = Some p" "x \<notin> id' ` set tasks"
    using processResponse_deleted [OF assms(1,2) that rep] by simp
  have b: "Map_get (taskProjectMap s) x = Some p \<and> x \<notin> id' ` set tasks"
    if "Map_get (lastKnownStates (processResponse p tasks s)) x = None"
    using processResponse_only [OF assms(1,3) _ that] assms(4) by simp
  have c: "Map_get (lastKnownStates (setKnownState y ph' e' s)) x \<noteq> None"
    "Map_get (lastKnownStates (trackTask y s)) x \<noteq> None"
    "Map_get (lastKnownStates (addProject q s)) x \<noteq> None"
    "y \<noteq> x \<longrightarrow> Map_get (lastKnownStates (untrackTask y s)) x \<noteq> None"
    "Map_get (lastKnownStates (untrackTask x s)) x = None"
    "Map_get (lastKnownStates (stop s)) x = None"
    using assms(4)
    by (simp_all add: setKnownState_def trackTask_def addProject_def untrackTask_def stop_def
        forget_def Map_get_set Map_get_delete)
  from a b c deletedLoop_active_indep show ?thesis by blast
qed

text \<open>
  The active task \<open>T1\<close>, recorded as todo in project \<open>P\<close>, and an empty response for \<open>P\<close>.
\<close>

theorem deletion_ignores_active_set_witness:
  "Map_ok (taskProjectMap trackedTodo) \<and> onTaskUpdate trackedTodo \<and>
   ''T1'' \<in> activeTaskIds trackedTodo \<and>
   Map_get (lastKnownStates trackedTodo) ''T1'' = Some (combinedState ''todo'' False) \<and>
   ''todo'' \<noteq> ''deleted'' \<and>
   Map_get (taskProjectMap trackedTodo) ''T1'' = Some ''P'' \<and>
   ''T1'' \<notin> id' ` set ([] :: VKTaskWithAttemptStatus list) \<and> ''T2'' \<noteq> ''T1'' \<and>
   lastKnownStates (processResponse ''P'' [] trackedTodo) = [] \<and>
   taskProjectMap (processResponse ''P'' [] trackedTodo) = [] \<and>
   notified (processResponse ''P'' [] trackedTodo) = [deletedTask ''T1'' ''P'']"
proof -
  have st: "lastKnownStates trackedTodo = [(''T1'', ''todo:false'')]"
    "taskProjectMap trackedTodo = [(''T1'', ''P'')]" "activeTaskIds trackedTodo = {''T1''}"
    "onTaskUpdate trackedTodo" "notified trackedTodo = []"
    by (simp_all add: trackedTodo_def poll_eval response_eval)
  have h: "Map_ok (taskProjectMap trackedTodo)" "onTaskUpdate trackedTodo"
    "''T1'' \<in> activeTaskIds trackedTodo"
    "Map_get (lastKnownStates trackedTodo) ''T1'' = Some (combinedState ''todo'' False)"
    "''todo'' \<noteq> ''deleted''"
    by (simp_all add: st Map_ok_def combinedState_def)
  have r: "lastKnownStates (processResponse ''P'' [] trackedTodo) = []"
    "taskProjectMap (processResponse ''P'' [] trackedTodo) = []"
    "notified (processResponse ''P'' [] trackedTodo) = [deletedTask ''T1'' ''P'']"
    by (simp_all add: trackedTodo_def poll_eval response_eval)
  from deletion_ignores_active_set [OF h, of "''P''" "[]" "{}" "''T2''" "''todo''" False "''P''"]
    h r st show ?thesis by simp
qed

text \<open>
  \<^bold>\<open>C10\<close>, as stated, says that only \<open>untrackTask\<close> or the deletion check clears the state
  of an active task: \<open>stop\<close> clears it too.
\<close>

theorem stop_clears_active_state:
  "''T1'' \<in> activeTaskIds trackedTodo \<and>
   Map_get (lastKnownStates trackedTodo) ''T1'' = Some ''todo:false'' \<and>
   Map_get (lastKnownStates (stop trackedTodo)) ''T1'' = None"
  by (simp add: trackedTodo_def poll_eval response_eval stop_def)

text \<open>
  \<^bold>\<open>C3\<close>. The specification says that no deletion notification fires for a task whose last known
  phase was already deleted. The active task \<open>T1\<close> is recorded with the combined state
  \<open>deleted:false\<close>, whose phase is deleted; the next response for its project omits it, and
  the deletion notification fires: the deletion check compares the whole combined state,
  not its phase, with \<open>'deleted'\<close>.
\<close>

theorem deleted_phase_notified_again:
  "''T1'' \<in> activeTaskIds trackedDeleted \<and>
   lastKnownStates trackedDeleted = [(''T1'', ''deleted:false'')] \<and>
   taskProjectMap trackedDeleted = [(''T1'', ''P'')] \<and>
   notified trackedDeleted = [] \<and>
   statusOf ''deleted:false'' = ''deleted'' \<and>
   notified (processResponse ''P'' [] trackedDeleted) = [deletedTask ''T1'' ''P'']"
  by (simp add: trackedDeleted_def poll_eval response_eval)

text \<open>
  \<^bold>\<open>C4\<close>. The specification says that the result of a request in flight when \<open>stop\<close> returns is
  discarded. The engine is started on project \<open>P\<close> and stopped while its first request is
  in flight, which clears both maps; the response then arrives with one task, and its
  handling records the task in \<open>lastKnownStates\<close> and in \<open>taskProjectMap\<close>: \<open>isPolling\<close> is
  checked before the request only.
\<close>

theorem stopped_engine_records_inflight_result:
  "start ''http://vk/'' [''P''] False newPoller = (started, Suspended 1 0 ''P'' False) \<and>
   \<not> isPolling (stop started) \<and>
   lastKnownStates (stop started) = [] \<and> taskProjectMap (stop started) = [] \<and>
   lastKnownStates (fst (pollResume (Suspended 1 0 ''P'' False)
       (Response 200 (Some [task ''T1'' ''todo'' False])) (stop started)))
     = [(''T1'', ''todo:false'')] \<and>
   taskProjectMap (fst (pollResume (Suspended 1 0 ''P'' False)
       (Response 200 (Some [task ''T1'' ''todo'' False])) (stop started)))
     = [(''T1'', ''P'')]"
  by (simp add: poll_eval response_eval stop_def)

text \<open>
  \<^bold>\<open>C5\<close>. With the callback set, the check of one task of a response notifies if and only
  if a combined state is recorded for its identifier and differs from the newly computed
  one, and it records the new one; two combined states are equal exactly when phase and
  execution flag are. Over a sequence of observations of one identifier the notifications
  are those of \<open>spec_changes\<close>; the notifications of a whole response with distinct
  identifiers are the deletions followed by the tasks whose state changed. Seeding with
  \<open>setKnownState\<close> records the state and notifies nothing.
\<close>

theorem change_detection_exact:
  assumes "onTaskUpdate s"
  shows "notified (checkTask p t s)
           = notified s @ (if Map_get (lastKnownStates s) (id' t) \<noteq> None \<and>
                              Map_get (lastKnownStates s) (id' t) \<noteq> Some (stateOf t)
                           then [t] else []) \<and>
         Map_get (lastKnownStates (checkTask p t s)) (id' t) = Some (stateOf t) \<and>
         ((combinedState ph e = stateOf t) = (ph = status t \<and> e = has_in_progress_attempt t)) \<and>
         ((\<forall>t\<in>set ts. id' t = x) \<longrightarrow>
            notified (tasksLoop ts p s) = notified s @ spec_changes (Map_get (lastKnownStates s) x) ts) \<and>
         (Map_ok (taskProjectMap s) \<and> distinct (map id' ts) \<longrightarrow>
            notified (processResponse p ts s)
              = notified s @ map (\<lambda>k. deletedTask k p)
                  (deletedIds (taskProjectMap s) p (id' ` set ts) (lastKnownStates s))
                @ filter (changed (lastKnownStates s)) ts) \<and>
         notified (setKnownState x ph e s) = notified s \<and>
         Map_get (lastKnownStates (setKnownState x ph e s)) x = Some (combinedState ph e)"
proof -
  have a: "notified (tasksLoop ts p s) = notified s @ spec_changes (Map_get (lastKnownStates s) x) ts"
    if "\<forall>t\<in>set ts. id' t = x"
    using tasksLoop_same_id [OF assms that] .
  have b: "notified (processResponse p ts s)
      = notified s @ map (\<lambda>k. deletedTask k p)
          (deletedIds (taskProjectMap s) p (id' ` set ts) (lastKnownStates s))
        @ filter (changed (lastKnownStates s)) ts"
    if "Map_ok (taskProjectMap s)" "distinct (map id' ts)"
    using processResponse_notified [OF that(1) assms, of p ts] that(2) by auto
  have c: "(combinedState ph e = stateOf t) = (ph = status t \<and> e = has_in_progress_attempt t)"
    by (simp add: stateOf_def combinedState_inj)
  from a b c assms show ?thesis
    by (simp add: checkTask_fields Map_get_set setKnownState_def)
qed

text \<open>
  \<open>T1\<close> seeded as todo and not executing: an observation in progress and executing notifies
  once, the seeded state observed again does not, an unknown task does not; of three
  observations the first and the third differ from their predecessor.
\<close>

theorem change_detection_exact_witness:
  "onTaskUpdate seeded \<and> notified seeded = [] \<and>
   map id' [task ''T1'' ''inprogress'' True, task ''T1'' ''inprogress'' True,
            task ''T1'' ''inprogress'' False] = [''T1'', ''T1'', ''T1''] \<and>
   Map_ok (taskProjectMap seeded) \<and> distinct (map id' [task ''T1'' ''inprogress'' True]) \<and>
   notified (checkTask ''P'' (task ''T1'' ''inprogress'' True) seeded)
     = [task ''T1'' ''inprogress'' True] \<and>
   notified (checkTask ''P'' (task ''T1'' ''todo'' False) seeded) = [] \<and>
   notified (checkTask ''P'' (task ''T2'' ''todo'' False) seeded) = [] \<and>
   notified (tasksLoop [task ''T1'' ''inprogress'' True, task ''T1'' ''inprogress'' True,
                        task ''T1'' ''inprogress'' False] ''P'' seeded)
     = [task ''T1'' ''inprogress'' True, task ''T1'' ''inprogress'' False] \<and>
   notified (processResponse ''P'' [task ''T1'' ''inprogress'' True] seeded)
     = [task ''T1'' ''inprogress'' True]"
proof -
  have st: "onTaskUpdate seeded" "notified seeded = []"
    "lastKnownStates seeded = [(''T1'', ''todo:false'')]" "taskProjectMap seeded = []"
    by (simp_all add: seeded_def setKnownState_def combinedState_def poll_eval)
  have ids: "\<forall>t\<in>set [task ''T1'' ''inprogress'' True, task ''T1'' ''inprogress'' True,
              task ''T1'' ''inprogress'' False]. id' t = ''T1''"
    "distinct (map id' [task ''T1'' ''inprogress'' True])"
    by (simp_all add: task_def deletedTask_def)
  have ok: "Map_ok (taskProjectMap seeded)" by (simp add: st Map_ok_def)
  note t = change_detection_exact [OF st(1)]
  have 1: "notified (checkTask ''P'' (task ''T1'' ''inprogress'' True) seeded)
     = [task ''T1'' ''inprogress'' True]"
    using t [of "''P''" "task ''T1'' ''inprogress'' True"]
    by (simp add: st stateOf_def combinedState_def task_def deletedTask_def)
  have 2: "notified (checkTask ''P'' (task ''T1'' ''todo'' False) seeded) = []"
    "notified (checkTask ''P'' (task ''T2'' ''todo'' False) seeded) = []"
    by (simp_all add: checkTask_fields st stateOf_def combinedState_def task_def deletedTask_def)
  have 3: "notified (tasksLoop [task ''T1'' ''inprogress'' True, task ''T1'' ''inprogress'' True,
                        task ''T1'' ''inprogress'' False] ''P'' seeded)
     = [task ''T1'' ''inprogress'' True, task ''T1'' ''inprogress'' False]"
    by (simp add: checkTask_fields st stateOf_def combinedState_def task_def deletedTask_def
        Map_get_set)
  have 4: "notified (processResponse ''P'' [task ''T1'' ''inprogress'' True] seeded)
     = [task ''T1'' ''inprogress'' True]"
    by (simp add: seeded_def setKnownState_def poll_eval response_eval)
  have 5: "map id' [task ''T1'' ''inprogress'' True, task ''T1'' ''inprogress'' True,
            task ''T1'' ''inprogress'' False] = [''T1'', ''T1'', ''T1'']"
    by (simp add: task_def deletedTask_def)
  from st ids(2) ok 1 2 3 4 5 show ?thesis by simp
qed

text \<open>What holds of a stopped engine: the continuation of a cycle schedules no timer.\<close>

lemma pollResume_stopped:
  assumes "\<not> isPolling s"
  shows "timeouts (fst (pollResume run r s)) = timeouts s \<and>
         pollTimer (fst (pollResume run r s)) = pollTimer s \<and>
         snd (pollResume run r s) = Finished"
proof -
  have loop: "timeouts (fst (pollLoop ref i he t)) = timeouts t \<and>
      pollTimer (fst (pollLoop ref i he t)) = pollTimer t \<and> snd (pollLoop ref i he t) = Finished"
    if "\<not> isPolling t" for ref i he t
    using that by (simp add: pollLoop_def schedule_def pollBackoff_def Let_def split: option.splits)
  show ?thesis
  proof (cases run)
    case Finished
    then show ?thesis by simp
  next
    case (Suspended ref j p he)
    show ?thesis
    proof (cases r)
      case Throws
      with Suspended loop [OF assms] show ?thesis by simp
    next
      case (Response st d)
      define t where "t = (if st = 200
        then processResponse p (case d of None \<Rightarrow> [] | Some tasks \<Rightarrow> tasks) s else s)"
      have c: "ctl t = ctl s" by (simp add: t_def)
      note f = ctl_eqD [OF c]
      from f(1) assms have "\<not> isPolling t" by simp
      from loop [OF this, of ref "j + 1" he] f(9,10) Suspended Response show ?thesis
        by (simp add: t_def)
    qed
  qed
qed

lemma Map_ok_filter: "Map_ok m \<Longrightarrow> Map_ok (filter P m)"
  by (simp add: Map_ok_def distinct_map_filter)

lemma Map_ok_tasksLoop:
  "Map_ok (lastKnownStates s) \<and> Map_ok (taskProjectMap s) \<Longrightarrow>
     Map_ok (lastKnownStates (tasksLoop ts p s)) \<and> Map_ok (taskProjectMap (tasksLoop ts p s))"
  by (induction ts arbitrary: s) (simp_all add: checkTask_fields Map_ok_set)

lemma Map_ok_processResponse:
  assumes "Map_ok (lastKnownStates s)" "Map_ok (taskProjectMap s)"
  shows "Map_ok (lastKnownStates (processResponse p tasks s)) \<and>
         Map_ok (taskProjectMap (processResponse p tasks s))"
proof -
  define s1 where "s1 = deletedLoop (taskProjectMap s) p (set (map id' tasks)) s"
  define s2 where "s2 = tasksLoop tasks p s1"
  define s3 where "s3 = cleanupTerminalTasks s2"
  from assms(2) have d: "distinct (map fst (taskProjectMap s))" by (simp add: Map_ok_def)
  from deletedLoop_result [OF d, of p "set (map id' tasks)" s] assms
  have "Map_ok (lastKnownStates s1) \<and> Map_ok (taskProjectMap s1)"
    by (simp add: s1_def Map_ok_filter)
  then have "Map_ok (lastKnownStates s2) \<and> Map_ok (taskProjectMap s2)"
    unfolding s2_def by (rule Map_ok_tasksLoop)
  with cleanupLoop_result [of "lastKnownStates s2" s2]
  have "Map_ok (lastKnownStates s3) \<and> Map_ok (taskProjectMap s3)"
    by (simp add: s3_def cleanupTerminalTasks_def Map_ok_filter)
  with evictLoop_maps [of "Map_keys (lastKnownStates s3)"
      "Map_size (lastKnownStates s3) - maxTrackedTasks s3" 0 s3]
  have "Map_ok (lastKnownStates (evictOverLimit s3)) \<and> Map_ok (taskProjectMap (evictOverLimit s3))"
    by (simp add: evictOverLimit_def Map_ok_filter)
  then show ?thesis by (simp add: processResponse_def s3_def s2_def s1_def)
qed

section \<open>The update queues keep their invariants\<close>

lemma tails_None: "tails uq c pa st \<Longrightarrow> uq p = None \<Longrightarrow> k < c \<Longrightarrow> pa k = p \<Longrightarrow> cleaned (st k)"
  unfolding tails_def by (drule spec [of _ p]) simp

lemma tails_Some:
  "tails uq c pa st \<Longrightarrow> uq p = Some t \<Longrightarrow>
     t < c \<and> pa t = p \<and> (\<forall>k. t < k \<and> k < c \<longrightarrow> pa k \<noteq> p)"
  unfolding tails_def by (drule spec [of _ p]) simp

lemma linked_call:
  assumes "linked c pa ex" "tails uq c pa st"
  shows "linked (Suc c) (pa(c := p)) (ex(c := uq p))"
  unfolding linked_def
proof (intro allI impI)
  fix n q
  assume n: "n < Suc c" and e: "(ex(c := uq p)) n = Some q"
  show "q < n \<and> (pa(c := p)) q = (pa(c := p)) n \<and>
        (\<forall>k. q < k \<and> k < n \<longrightarrow> (pa(c := p)) k \<noteq> (pa(c := p)) n)"
  proof (cases "n = c")
    case True
    with e have "uq p = Some q" by simp
    from tails_Some [OF assms(2) this] True show ?thesis by auto
  next
    case False
    with n e have "n < c" "ex n = Some q" by simp_all
    with assms(1) have "q < n \<and> pa q = pa n \<and> (\<forall>k. q < k \<and> k < n \<longrightarrow> pa k \<noteq> pa n)"
      unfolding linked_def by blast
    with \<open>n < c\<close> show ?thesis by auto
  qed
qed

lemma fresh_call:
  assumes "fresh c pa ex st" "tails uq c pa st"
  shows "fresh (Suc c) (pa(c := p)) (ex(c := uq p)) (st(c := Chained))"
  unfolding fresh_def
proof (intro allI impI)
  fix n k
  assume n: "n < Suc c" and e: "(ex(c := uq p)) n = None" and k: "k < n"
    and pk: "(pa(c := p)) k = (pa(c := p)) n"
  show "cleaned ((st(c := Chained)) k)"
  proof (cases "n = c")
    case True
    with e k pk have "uq p = None" "k < c" "pa k = p" by simp_all
    from tails_None [OF assms(2) this] \<open>k < c\<close> show ?thesis by simp
  next
    case False
    with n e k pk have "n < c" "ex n = None" "k < n" "pa k = pa n" by simp_all
    with assms(1) have "cleaned (st k)" unfolding fresh_def by blast
    with \<open>n < c\<close> k show ?thesis by simp
  qed
qed

lemma tails_call:
  assumes "tails uq c pa st"
  shows "tails (uq(p := Some c)) (Suc c) (pa(c := p)) (st(c := Chained))"
  unfolding tails_def
proof
  fix p'
  show "case (uq(p := Some c)) p' of
          None \<Rightarrow> \<forall>k<Suc c. (pa(c := p)) k = p' \<longrightarrow> cleaned ((st(c := Chained)) k)
        | Some t \<Rightarrow> t < Suc c \<and> (pa(c := p)) t = p' \<and>
                    (\<forall>k. t < k \<and> k < Suc c \<longrightarrow> (pa(c := p)) k \<noteq> p')"
  proof (cases "p' = p")
    case True
    then show ?thesis by simp
  next
    case False
    show ?thesis
    proof (cases "uq p'")
      case None
      from tails_None [OF assms None] False None show ?thesis by (auto simp: less_Suc_eq)
    next
      case (Some t)
      from tails_Some [OF assms Some] False Some show ?thesis by (auto simp: less_Suc_eq)
    qed
  qed
qed

lemma ordered_call:
  assumes "ordered c pa st"
  shows "ordered (Suc c) (pa(c := p)) (st(c := Chained))"
  using assms unfolding ordered_def by (auto simp: less_Suc_eq)

lemma chainOk_new: "chainOk (newManager v)"
  by (simp add: chainOk_def linked_def fresh_def tails_def ordered_def newManager_def)

lemma chainOk_update:
  assumes "chainOk m"
  shows "chainOk (update p u m)"
proof -
  from assms have a: "linked (calls m) (callPath m) (existingQueue m)"
    and b: "fresh (calls m) (callPath m) (existingQueue m) (stage m)"
    and c: "tails (updateQueues m) (calls m) (callPath m) (stage m)"
    and d: "ordered (calls m) (callPath m) (stage m)"
    by (simp_all add: chainOk_def)
  show ?thesis
    unfolding chainOk_def update_def Let_def
    using linked_call [OF a c, of p] fresh_call [OF b c, of p] tails_call [OF c, of p]
      ordered_call [OF d, of p]
    by simp
qed

text \<open>A change of the stage of one call.\<close>

lemma fresh_stage:
  assumes "fresh c pa ex st" "cleaned (st n) \<Longrightarrow> cleaned s'"
  shows "fresh c pa ex (st(n := s'))"
  using assms unfolding fresh_def by auto

lemma tails_stage:
  assumes "tails uq c pa st" "cleaned (st n) \<Longrightarrow> cleaned s'"
  shows "tails uq c pa (st(n := s'))"
  unfolding tails_def
proof
  fix p
  show "case uq p of None \<Rightarrow> \<forall>k<c. pa k = p \<longrightarrow> cleaned ((st(n := s')) k)
        | Some t \<Rightarrow> t < c \<and> pa t = p \<and> (\<forall>k. t < k \<and> k < c \<longrightarrow> pa k \<noteq> p)"
  proof (cases "uq p")
    case None
    from tails_None [OF assms(1) None] assms(2) None show ?thesis by auto
  next
    case (Some t)
    from tails_Some [OF assms(1) Some] Some show ?thesis by simp
  qed
qed

lemma ordered_stage:
  assumes "ordered c pa st" "cleaned (st n) \<Longrightarrow> cleaned s'"
    and "st n = Chained \<Longrightarrow> s' \<noteq> Chained \<Longrightarrow> \<forall>k<n. pa k = pa n \<longrightarrow> cleaned (st k)"
  shows "ordered c pa (st(n := s'))"
  unfolding ordered_def
proof (intro allI impI)
  fix i k
  assume i: "i < c" and k: "k < i" and h: "pa k = pa i \<and> (st(n := s')) i \<noteq> Chained"
  have old: "cleaned (st k)"
  proof (cases "i = n")
    case True
    show ?thesis
    proof (cases "st n = Chained")
      case True
      with h \<open>i = n\<close> assms(3) k show ?thesis by simp
    next
      case False
      with assms(1) i k h \<open>i = n\<close> show ?thesis unfolding ordered_def by blast
    qed
  next
    case False
    with assms(1) i k h show ?thesis unfolding ordered_def by auto
  qed
  with assms(2) show "cleaned ((st(n := s')) k)" by auto
qed

lemma ready:
  assumes "linked c pa ex" "fresh c pa ex st" "ordered c pa st" "n < c"
    and "ex n = None \<or> (\<exists>q. ex n = Some q \<and> cleaned (st q))"
  shows "\<forall>k<n. pa k = pa n \<longrightarrow> cleaned (st k)"
proof (intro allI impI)
  fix k assume k: "k < n" and pk: "pa k = pa n"
  from assms(5) show "cleaned (st k)"
  proof
    assume "ex n = None"
    with assms(2,4) k pk show ?thesis unfolding fresh_def by blast
  next
    assume "\<exists>q. ex n = Some q \<and> cleaned (st q)"
    then obtain q where q: "ex n = Some q" "cleaned (st q)" by blast
    with assms(1,4) have l: "q < n" "pa q = pa n" "\<forall>j. q < j \<and> j < n \<longrightarrow> pa j \<noteq> pa n"
      unfolding linked_def by blast+
    consider "k < q" | "k = q" | "q < k" by arith
    then show ?thesis
    proof cases
      case 1
      from q(2) have "st q \<noteq> Chained" by auto
      with assms(3) 1 l(1,2) assms(4) pk show ?thesis unfolding ordered_def
        by (metis less_trans)
    next
      case 2
      with q show ?thesis by simp
    next
      case 3
      with l(3) k pk show ?thesis by auto
    qed
  qed
qed

lemma tails_finally:
  assumes "tails uq c pa st" "ordered c pa st" "n < c" "st n \<noteq> Chained" "cleaned s'"
  shows "tails (if uq (pa n) = Some n then uq(pa n := None) else uq) c pa (st(n := s'))"
proof (cases "uq (pa n) = Some n")
  case False
  with tails_stage [OF assms(1), of n s'] assms(5) show ?thesis by simp
next
  case True
  from tails_Some [OF assms(1) True] have last: "\<forall>k. n < k \<and> k < c \<longrightarrow> pa k \<noteq> pa n" by simp
  have "tails (uq(pa n := None)) c pa (st(n := s'))"
    unfolding tails_def
  proof
    fix p
    show "case (uq(pa n := None)) p of
            None \<Rightarrow> \<forall>k<c. pa k = p \<longrightarrow> cleaned ((st(n := s')) k)
          | Some t \<Rightarrow> t < c \<and> pa t = p \<and> (\<forall>k. t < k \<and> k < c \<longrightarrow> pa k \<noteq> p)"
    proof (cases "p = pa n")
      case True
      have "cleaned ((st(n := s')) k)" if "k < c" "pa k = pa n" for k
      proof -
        consider "k < n" | "k = n" | "n < k" by arith
        then show ?thesis
        proof cases
          case 1
          with assms(2,3,4) that show ?thesis unfolding ordered_def by auto
        next
          case 2
          with assms(5) show ?thesis by simp
        next
          case 3
          with last that show ?thesis by blast
        qed
      qed
      with True show ?thesis by simp
    next
      case False
      show ?thesis
      proof (cases "uq p")
        case None
        from tails_None [OF assms(1) None] assms(5) False None show ?thesis by auto
      next
        case (Some t)
        from tails_Some [OF assms(1) Some] False Some show ?thesis by simp
      qed
    qed
  qed
  with True show ?thesis by simp
qed

lemma chainOk_stage:
  assumes "chainOk m" and "n < calls m" and "cleaned (stage m n) \<Longrightarrow> cleaned s'"
    and "stage m n = Chained \<Longrightarrow> s' \<noteq> Chained \<Longrightarrow>
           existingQueue m n = None \<or> (\<exists>q. existingQueue m n = Some q \<and> cleaned (stage m q))"
    and "calls m' = calls m" "callPath m' = callPath m" "existingQueue m' = existingQueue m"
    and "updateQueues m' = updateQueues m" "stage m' = (stage m)(n := s')"
  shows "chainOk m'"
proof -
  from assms(1) have a: "linked (calls m) (callPath m) (existingQueue m)"
    and b: "fresh (calls m) (callPath m) (existingQueue m) (stage m)"
    and c: "tails (updateQueues m) (calls m) (callPath m) (stage m)"
    and d: "ordered (calls m) (callPath m) (stage m)"
    by (simp_all add: chainOk_def)
  have r: "\<forall>k<n. callPath m k = callPath m n \<longrightarrow> cleaned (stage m k)"
    if "stage m n = Chained" "s' \<noteq> Chained"
    using ready [OF a b d assms(2) assms(4) [OF that]] .
  show ?thesis
    unfolding chainOk_def assms(5-9)
    using a fresh_stage [OF b assms(3)] tails_stage [OF c assms(3)] ordered_stage [OF d assms(3) r]
    by simp
qed

lemma chainOk_thenReaction:
  assumes "chainOk m" "thenReaction n m = Some m'"
  shows "chainOk m'"
proof -
  from assms(2) have n: "n < calls m" and st: "stage m n = Chained"
    by (auto simp: thenReaction_def split: if_splits)
  show ?thesis
  proof (cases "existingQueue m n")
    case None
    with assms(2) n st have m': "m' = beginWrite n m" by (simp add: thenReaction_def)
    show ?thesis
      by (rule chainOk_stage [OF assms(1) n, of Writing])
         (simp_all add: st None m' beginWrite_def)
  next
    case (Some q)
    with assms(2) n st consider
        "stage m q = Settled Fulfilled" "m' = beginWrite n m"
      | e where "stage m q = Settled (Rejected e)"
          "m' = m\<lparr>stage := (stage m)(n := ThenSettled (Rejected e))\<rparr>"
      by (auto simp: thenReaction_def split: stage.splits outcome.splits)
    then show ?thesis
    proof cases
      case 1
      show ?thesis
        by (rule chainOk_stage [OF assms(1) n, of Writing])
           (simp_all add: st Some 1 beginWrite_def)
    next
      case 2
      show ?thesis
        by (rule chainOk_stage [OF assms(1) n, of "ThenSettled (Rejected e)"])
           (simp_all add: st Some 2)
    qed
  qed
qed

lemma chainOk_writeSettles:
  assumes "chainOk m" "writeSettles n err m = Some m'"
  shows "chainOk m'"
proof -
  from assms(2) have n: "n < calls m" and st: "stage m n = Writing"
    by (auto simp: writeSettles_def split: if_splits)
  show ?thesis
  proof (cases err)
    case None
    with assms(2) n st show ?thesis
      by (intro chainOk_stage [OF assms(1) n, of "ThenSettled Fulfilled"])
         (auto simp: writeSettles_def)
  next
    case (Some e)
    with assms(2) n st show ?thesis
      by (intro chainOk_stage [OF assms(1) n, of "ThenSettled (Rejected e)"])
         (auto simp: writeSettles_def)
  qed
qed

lemma chainOk_settle:
  assumes "chainOk m" "settle n m = Some m'"
  shows "chainOk m'"
proof -
  from assms(2) obtain out where n: "n < calls m" and st: "stage m n = FinallyRun out"
    and m': "m' = m\<lparr>stage := (stage m)(n := Settled out)\<rparr>"
    by (auto simp: settle_def split: if_splits stage.splits)
  show ?thesis
    by (rule chainOk_stage [OF assms(1) n, of "Settled out"]) (simp_all add: st m')
qed

lemma chainOk_finallyReaction:
  assumes "chainOk m" "finallyReaction n m = Some m'"
  shows "chainOk m'"
proof -
  from assms(2) obtain out where n: "n < calls m" and st: "stage m n = ThenSettled out"
    and m': "m' = m\<lparr>updateQueues := (if updateQueues m (callPath m n) = Some n
                          then (updateQueues m)(callPath m n := None) else updateQueues m),
                    stage := (stage m)(n := FinallyRun out)\<rparr>"
    by (auto simp: finallyReaction_def split: if_splits stage.splits)
  from assms(1) have a: "linked (calls m) (callPath m) (existingQueue m)"
    and b: "fresh (calls m) (callPath m) (existingQueue m) (stage m)"
    and c: "tails (updateQueues m) (calls m) (callPath m) (stage m)"
    and d: "ordered (calls m) (callPath m) (stage m)"
    by (simp_all add: chainOk_def)
  have ns: "stage m n \<noteq> Chained" by (simp add: st)
  show ?thesis
    unfolding chainOk_def m'
    using a fresh_stage [OF b, of n "FinallyRun out"]
      tails_finally [OF c d n ns, of "FinallyRun out"]
      ordered_stage [OF d, of n "FinallyRun out"] st
    by simp
qed

lemma chainOk_step: "chainOk m \<Longrightarrow> step ev m = Some m' \<Longrightarrow> chainOk m'"
  by (cases ev)
     (auto intro: chainOk_update chainOk_thenReaction chainOk_writeSettles
        chainOk_finallyReaction chainOk_settle)

lemma logOk_new: "logOk (newManager v)"
  by (simp add: logOk_def wrote_def skipped_def newManager_def)

lemma linked_less: "linked c pa ex \<Longrightarrow> n < c \<Longrightarrow> ex n = Some q \<Longrightarrow> q < c \<and> q < n"
  unfolding linked_def by (meson less_trans)

lemma wrote_call:
  assumes "wrote c ex st wl" "linked c pa ex" "\<forall>n\<in>set wl. n < c"
  shows "wrote (Suc c) (ex(c := x)) (st(c := Chained)) wl"
  unfolding wrote_def
proof (intro allI impI)
  fix n assume "n < Suc c" and w: "n \<in> set wl"
  with assms(3) have n: "n < c" by auto
  from assms(1) n w have a: "st n \<noteq> Chained" "\<forall>q. ex n = Some q \<longrightarrow> st q = Settled Fulfilled"
    unfolding wrote_def by blast+
  have "(st(c := Chained)) q = Settled Fulfilled" if "(ex(c := x)) n = Some q" for q
  proof -
    from that n have e: "ex n = Some q" by simp
    from linked_less [OF assms(2) n e] a(2) e show ?thesis by simp
  qed
  with a(1) n show "(st(c := Chained)) n \<noteq> Chained \<and>
      (\<forall>q. (ex(c := x)) n = Some q \<longrightarrow> (st(c := Chained)) q = Settled Fulfilled)"
    by simp
qed

lemma skipped_call:
  assumes "skipped c ex st wl" "linked c pa ex"
  shows "skipped (Suc c) (ex(c := x)) (st(c := Chained)) wl"
  unfolding skipped_def
proof (intro allI impI)
  fix n assume "n < Suc c" and h: "n \<notin> set wl \<and> (st(c := Chained)) n \<noteq> Chained"
  then have n: "n < c" and h': "n \<notin> set wl" "st n \<noteq> Chained"
    by (auto simp: less_Suc_eq split: if_splits)
  with assms(1) obtain q e where qe: "ex n = Some q" "st q = Settled (Rejected e)"
    "outcomeOf (st n) = Some (Rejected e)" unfolding skipped_def by blast
  from linked_less [OF assms(2) n qe(1)] qe n
  show "\<exists>q e. (ex(c := x)) n = Some q \<and> (st(c := Chained)) q = Settled (Rejected e) \<and>
      outcomeOf ((st(c := Chained)) n) = Some (Rejected e)"
    by auto
qed

lemma wrote_stage:
  assumes "wrote c ex st wl" and "n < c" and "\<forall>out. st n \<noteq> Settled out"
    and "wl' = wl \<or> (wl' = wl @ [n] \<and> s' \<noteq> Chained \<and>
                       (\<forall>q. ex n = Some q \<longrightarrow> st q = Settled Fulfilled))"
    and "st n \<noteq> Chained \<Longrightarrow> s' \<noteq> Chained"
  shows "wrote c ex (st(n := s')) wl'"
  unfolding wrote_def
proof (intro allI impI)
  fix i assume i: "i < c" and w: "i \<in> set wl'"
  have pre: "(st(n := s')) q = Settled Fulfilled" if "st q = Settled Fulfilled" for q
    using that assms(3) by auto
  show "(st(n := s')) i \<noteq> Chained \<and>
        (\<forall>q. ex i = Some q \<longrightarrow> (st(n := s')) q = Settled Fulfilled)"
  proof (cases "i \<in> set wl")
    case True
    with assms(1) i have a: "st i \<noteq> Chained" "\<forall>q. ex i = Some q \<longrightarrow> st q = Settled Fulfilled"
      unfolding wrote_def by blast+
    with assms(5) pre show ?thesis by auto
  next
    case False
    with w assms(4) have "i = n" "s' \<noteq> Chained" "\<forall>q. ex n = Some q \<longrightarrow> st q = Settled Fulfilled"
      by auto
    with pre show ?thesis by auto
  qed
qed

lemma skipped_stage:
  assumes "skipped c ex st wl" and "n < c" and "\<forall>out. st n \<noteq> Settled out"
    and "set wl \<subseteq> set wl'"
    and "st n \<noteq> Chained \<Longrightarrow> outcomeOf (st n) \<noteq> None \<Longrightarrow> outcomeOf s' = outcomeOf (st n)"
    and "st n = Chained \<Longrightarrow> n \<in> set wl' \<or> s' = Chained \<or>
           (\<exists>q e. ex n = Some q \<and> st q = Settled (Rejected e) \<and>
                  outcomeOf s' = Some (Rejected e))"
  shows "skipped c ex (st(n := s')) wl'"
  unfolding skipped_def
proof (intro allI impI)
  fix i assume i: "i < c" and h: "i \<notin> set wl' \<and> (st(n := s')) i \<noteq> Chained"
  have pre: "(st(n := s')) q = Settled (Rejected e)" if "st q = Settled (Rejected e)" for q e
    using that assms(3) by auto
  show "\<exists>q e. ex i = Some q \<and> (st(n := s')) q = Settled (Rejected e) \<and>
          outcomeOf ((st(n := s')) i) = Some (Rejected e)"
  proof (cases "i = n")
    case False
    with h assms(4) have "i \<notin> set wl" "st i \<noteq> Chained" by auto
    with assms(1) i obtain q e where "ex i = Some q" "st q = Settled (Rejected e)"
      "outcomeOf (st i) = Some (Rejected e)" unfolding skipped_def by blast
    with pre False show ?thesis by auto
  next
    case True
    show ?thesis
    proof (cases "st n = Chained")
      case True
      with assms(6) h \<open>i = n\<close> obtain q e where "ex n = Some q" "st q = Settled (Rejected e)"
        "outcomeOf s' = Some (Rejected e)" by auto
      with pre \<open>i = n\<close> show ?thesis by auto
    next
      case False
      with h assms(4) \<open>i = n\<close> have "n \<notin> set wl" by auto
      with assms(1,2) False obtain q e where qe: "ex n = Some q" "st q = Settled (Rejected e)"
        "outcomeOf (st n) = Some (Rejected e)" unfolding skipped_def by blast
      with assms(5) False have "outcomeOf s' = Some (Rejected e)" by simp
      with qe pre \<open>i = n\<close> show ?thesis by auto
    qed
  qed
qed

lemma logOk_update:
  assumes "logOk m" "chainOk m"
  shows "logOk (update p u m)"
proof -
  from assms(2) have l: "linked (calls m) (callPath m) (existingQueue m)"
    by (simp add: chainOk_def)
  from assms(1) have a: "\<forall>n\<in>set (writeLog m). n < calls m"
    and b: "wrote (calls m) (existingQueue m) (stage m) (writeLog m)"
    and c: "skipped (calls m) (existingQueue m) (stage m) (writeLog m)"
    by (simp_all add: logOk_def)
  from a have "\<forall>n\<in>set (writeLog m). n < Suc (calls m)" by auto
  with wrote_call [OF b l a, of "updateQueues m p"] skipped_call [OF c l, of "updateQueues m p"]
  show ?thesis unfolding logOk_def update_def Let_def by simp
qed

lemma logOk_stage:
  assumes "logOk m" and "n < calls m" and "\<forall>out. stage m n \<noteq> Settled out"
    and "wl' = writeLog m \<or> (wl' = writeLog m @ [n] \<and> s' \<noteq> Chained \<and>
           (\<forall>q. existingQueue m n = Some q \<longrightarrow> stage m q = Settled Fulfilled))"
    and "stage m n \<noteq> Chained \<Longrightarrow>
           s' \<noteq> Chained \<and> (outcomeOf (stage m n) \<noteq> None \<longrightarrow> outcomeOf s' = outcomeOf (stage m n))"
    and "stage m n = Chained \<Longrightarrow> n \<in> set wl' \<or> s' = Chained \<or>
           (\<exists>q e. existingQueue m n = Some q \<and> stage m q = Settled (Rejected e) \<and>
                  outcomeOf s' = Some (Rejected e))"
    and "calls m' = calls m" "existingQueue m' = existingQueue m"
    and "stage m' = (stage m)(n := s')" "writeLog m' = wl'"
  shows "logOk m'"
proof -
  from assms(1) have a: "\<forall>n\<in>set (writeLog m). n < calls m"
    and b: "wrote (calls m) (existingQueue m) (stage m) (writeLog m)"
    and c: "skipped (calls m) (existingQueue m) (stage m) (writeLog m)"
    by (simp_all add: logOk_def)
  from assms(4) have sub: "set (writeLog m) \<subseteq> set wl'" by auto
  from a assms(2,4) have "\<forall>i\<in>set wl'. i < calls m" by auto
  moreover have "wrote (calls m) (existingQueue m) ((stage m)(n := s')) wl'"
    using wrote_stage [OF b assms(2,3,4)] assms(5) by blast
  moreover have "skipped (calls m) (existingQueue m) ((stage m)(n := s')) wl'"
    using skipped_stage [OF c assms(2,3) sub _ assms(6)] assms(5) by blast
  ultimately show ?thesis unfolding logOk_def assms(7-10) by simp
qed

lemma thenReaction_cases:
  assumes "thenReaction n m = Some m'"
  obtains (begins) "n < calls m" "stage m n = Chained" "m' = beginWrite n m"
      "\<forall>q. existingQueue m n = Some q \<longrightarrow> stage m q = Settled Fulfilled"
    | (skips) q e where "n < calls m" "stage m n = Chained" "existingQueue m n = Some q"
      "stage m q = Settled (Rejected e)"
      "m' = m\<lparr>stage := (stage m)(n := ThenSettled (Rejected e))\<rparr>"
  using assms
  by (auto simp: thenReaction_def split: if_splits option.splits stage.splits outcome.splits)

lemma writeSettles_cases:
  assumes "writeSettles n err m = Some m'"
  obtains (ok) "n < calls m" "stage m n = Writing" "err = None"
      "m' = m\<lparr>vault := (vault m)(callPath m n := mergeFields (callUpdates m n) (snapshot m n)),
              stage := (stage m)(n := ThenSettled Fulfilled)\<rparr>"
    | (fail) e where "n < calls m" "stage m n = Writing" "err = Some e"
      "m' = m\<lparr>stage := (stage m)(n := ThenSettled (Rejected e))\<rparr>"
  using assms by (auto simp: writeSettles_def split: if_splits option.splits)

lemma finallyReaction_cases:
  assumes "finallyReaction n m = Some m'"
  obtains out where "n < calls m" "stage m n = ThenSettled out"
    "m' = m\<lparr>updateQueues := (if updateQueues m (callPath m n) = Some n
                          then (updateQueues m)(callPath m n := None) else updateQueues m),
            stage := (stage m)(n := FinallyRun out)\<rparr>"
  using assms by (auto simp: finallyReaction_def split: if_splits stage.splits)

lemma settle_cases:
  assumes "settle n m = Some m'"
  obtains out where "n < calls m" "stage m n = FinallyRun out"
    "m' = m\<lparr>stage := (stage m)(n := Settled out)\<rparr>"
  using assms by (auto simp: settle_def split: if_splits stage.splits)

lemma logOk_step:
  assumes "logOk m" "chainOk m" "step ev m = Some m'"
  shows "logOk m'"
proof (cases ev)
  case (Update p u)
  with assms show ?thesis by (auto intro: logOk_update)
next
  case (ThenReaction n)
  with assms(3) have "thenReaction n m = Some m'" by simp
  then show ?thesis
  proof (cases rule: thenReaction_cases)
    case begins
    show ?thesis
      by (rule logOk_stage [OF assms(1) begins(1), of "writeLog m @ [n]" Writing])
         (simp_all add: begins beginWrite_def)
  next
    case (skips q e)
    show ?thesis
      by (rule logOk_stage [OF assms(1) skips(1), of "writeLog m" "ThenSettled (Rejected e)"])
         (simp_all add: skips)
  qed
next
  case (WriteSettles n err)
  with assms(3) have "writeSettles n err m = Some m'" by simp
  then show ?thesis
  proof (cases rule: writeSettles_cases)
    case ok
    show ?thesis
      by (rule logOk_stage [OF assms(1) ok(1), of "writeLog m" "ThenSettled Fulfilled"])
         (simp_all add: ok)
  next
    case (fail e)
    show ?thesis
      by (rule logOk_stage [OF assms(1) fail(1), of "writeLog m" "ThenSettled (Rejected e)"])
         (simp_all add: fail)
  qed
next
  case (FinallyReaction n)
  with assms(3) have "finallyReaction n m = Some m'" by simp
  then show ?thesis
  proof (cases rule: finallyReaction_cases)
    case (1 out)
    show ?thesis
      by (rule logOk_stage [OF assms(1) 1(1), of "writeLog m" "FinallyRun out"])
         (simp_all add: 1)
  qed
next
  case (Settle n)
  with assms(3) have "settle n m = Some m'" by simp
  then show ?thesis
  proof (cases rule: settle_cases)
    case (1 out)
    show ?thesis
      by (rule logOk_stage [OF assms(1) 1(1), of "writeLog m" "Settled out"])
         (simp_all add: 1)
  qed
qed

lemma mergeFields_apply:
  "mergeFields us fm k = (case lastDefined us k of Some v \<Rightarrow> Some v | None \<Rightarrow> fm k)"
  by (induction us arbitrary: fm) (auto split: option.splits)

lemma one_in_flight:
  assumes "ordered c pa st" "i < c" "j < c" "st i = Writing" "st j = Writing" "pa i = pa j"
  shows "i = j"
proof (rule ccontr)
  assume "i \<noteq> j"
  then consider "i < j" | "j < i" by arith
  then show False
  proof cases
    case 1
    with assms have "cleaned (st i)" unfolding ordered_def by (metis stage.distinct(1))
    with assms(4) show False by simp
  next
    case 2
    with assms have "cleaned (st j)" unfolding ordered_def by (metis stage.distinct(1))
    with assms(5) show False by simp
  qed
qed

lemma in_log_if_writing:
  assumes "logOk m" "n < calls m" "stage m n = Writing"
  shows "n \<in> set (writeLog m)"
proof (rule ccontr)
  assume "n \<notin> set (writeLog m)"
  with assms have "\<exists>q e. existingQueue m n = Some q \<and> stage m q = Settled (Rejected e) \<and>
      outcomeOf (stage m n) = Some (Rejected e)"
    unfolding logOk_def skipped_def by auto
  with assms(3) show False by simp
qed

lemma snapOk_new: "snapOk (newManager v)"
  by (simp add: snapOk_def newManager_def)

lemma fifo_new: "fifo (newManager v)"
  by (simp add: fifo_def newManager_def)

lemma lastWins_new: "lastWins (newManager v)"
  by (simp add: lastWins_def newManager_def)

lemma snapOk_step:
  assumes "snapOk m" "chainOk m" "step ev m = Some m'"
  shows "snapOk m'"
proof (cases ev)
  case (Update p u)
  with assms(3) have m': "m' = update p u m" by simp
  from assms(1) show ?thesis
    unfolding snapOk_def m' update_def Let_def by (auto simp: less_Suc_eq)
next
  case (ThenReaction n)
  with assms(3) have "thenReaction n m = Some m'" by simp
  then show ?thesis
  proof (cases rule: thenReaction_cases)
    case begins
    with assms(1) show ?thesis unfolding snapOk_def beginWrite_def by auto
  next
    case (skips q e)
    with assms(1) show ?thesis unfolding snapOk_def by auto
  qed
next
  case (WriteSettles n err)
  with assms(3) have "writeSettles n err m = Some m'" by simp
  then show ?thesis
  proof (cases rule: writeSettles_cases)
    case ok
    from assms(2) have d: "ordered (calls m) (callPath m) (stage m)" by (simp add: chainOk_def)
    have "callPath m i \<noteq> callPath m n" if "i < calls m" "stage m i = Writing" "i \<noteq> n" for i
      using one_in_flight [OF d that(1) ok(1) that(2) ok(2)] that(3) by auto
    with assms(1) show ?thesis unfolding snapOk_def ok(4) by auto
  next
    case (fail e)
    with assms(1) show ?thesis unfolding snapOk_def by auto
  qed
next
  case (FinallyReaction n)
  with assms(3) have "finallyReaction n m = Some m'" by simp
  then show ?thesis
  proof (cases rule: finallyReaction_cases)
    case (1 out)
    with assms(1) show ?thesis unfolding snapOk_def by auto
  qed
next
  case (Settle n)
  with assms(3) have "settle n m = Some m'" by simp
  then show ?thesis
  proof (cases rule: settle_cases)
    case (1 out)
    with assms(1) show ?thesis unfolding snapOk_def by auto
  qed
qed

lemma fifo_step:
  assumes "fifo m" "chainOk m" "logOk m" "step ev m = Some m'"
  shows "fifo m'"
proof (cases ev)
  case (Update p u)
  with assms(4) have m': "m' = update p u m" by simp
  from assms(3) have lt: "\<forall>n\<in>set (writeLog m). n < calls m" by (simp add: logOk_def)
  have "filter (\<lambda>n. ((callPath m)(calls m := p)) n = p') (writeLog m)
      = filter (\<lambda>n. callPath m n = p') (writeLog m)" for p'
    using lt by (intro filter_cong) auto
  with assms(1) show ?thesis unfolding fifo_def m' update_def Let_def by simp
next
  case (ThenReaction n)
  with assms(4) have "thenReaction n m = Some m'" by simp
  then show ?thesis
  proof (cases rule: thenReaction_cases)
    case begins
    from assms(2) have d: "ordered (calls m) (callPath m) (stage m)" by (simp add: chainOk_def)
    have "w < n" if "w \<in> set (writeLog m)" "callPath m w = callPath m n" for w
    proof (rule ccontr)
      assume "\<not> w < n"
      from assms(3) that(1) have w: "w < calls m" "stage m w \<noteq> Chained"
        unfolding logOk_def wrote_def by auto
      with begins(2) have "w \<noteq> n" by auto
      with \<open>\<not> w < n\<close> have "n < w" by arith
      with d w that(2) have "cleaned (stage m n)" unfolding ordered_def by metis
      with begins(2) show False by simp
    qed
    with assms(1) show ?thesis
      unfolding fifo_def begins(3) beginWrite_def by (auto simp: sorted_wrt_append)
  next
    case (skips q e)
    with assms(1) show ?thesis unfolding fifo_def by simp
  qed
next
  case (WriteSettles n err)
  with assms(4) have "writeSettles n err m = Some m'" by simp
  then show ?thesis
    using assms(1) unfolding fifo_def by (cases rule: writeSettles_cases) simp_all
next
  case (FinallyReaction n)
  with assms(4) have "finallyReaction n m = Some m'" by simp
  then show ?thesis
    using assms(1) unfolding fifo_def by (cases rule: finallyReaction_cases) simp_all
next
  case (Settle n)
  with assms(4) have "settle n m = Some m'" by simp
  then show ?thesis
    using assms(1) unfolding fifo_def by (cases rule: settle_cases) simp_all
qed

lemma lastWins_same_vault:
  assumes "lastWins m" and "calls m' = calls m" "callPath m' = callPath m"
    and "callUpdates m' = callUpdates m" "vault m' = vault m"
    and "set (writeLog m) \<subseteq> set (writeLog m')"
    and "\<And>n. n < calls m \<Longrightarrow> outcomeOf (stage m' n) = Some Fulfilled \<Longrightarrow>
           outcomeOf (stage m n) = Some Fulfilled"
  shows "lastWins m'"
  unfolding lastWins_def assms(2-5)
proof (intro allI impI)
  fix n key v
  assume n: "n < calls m" and h: "outcomeOf (stage m' n) = Some Fulfilled \<and>
      (\<forall>k. n < k \<and> k < calls m \<and> callPath m k = callPath m n \<longrightarrow> k \<notin> set (writeLog m'))"
    and l: "lastDefined (callUpdates m n) key = Some v"
  from h assms(6) assms(7) [OF n] have "outcomeOf (stage m n) = Some Fulfilled \<and>
      (\<forall>k. n < k \<and> k < calls m \<and> callPath m k = callPath m n \<longrightarrow> k \<notin> set (writeLog m))"
    by auto
  with assms(1) n l show "vault m (callPath m n) key = Some v" unfolding lastWins_def by blast
qed

lemma lastWins_step:
  assumes "lastWins m" "chainOk m" "logOk m" "snapOk m" "step ev m = Some m'"
  shows "lastWins m'"
proof (cases ev)
  case (Update p u)
  with assms(5) have m': "m' = update p u m" by simp
  show ?thesis
    unfolding lastWins_def
  proof (intro allI impI)
    fix n key v
    assume n: "n < calls m'" and h: "outcomeOf (stage m' n) = Some Fulfilled \<and>
        (\<forall>k. n < k \<and> k < calls m' \<and> callPath m' k = callPath m' n \<longrightarrow> k \<notin> set (writeLog m'))"
      and l: "lastDefined (callUpdates m' n) key = Some v"
    from h have "n \<noteq> calls m" by (auto simp: m' update_def Let_def)
    with n have n': "n < calls m" by (simp add: m' update_def Let_def)
    with h have "outcomeOf (stage m n) = Some Fulfilled \<and>
        (\<forall>k. n < k \<and> k < calls m \<and> callPath m k = callPath m n \<longrightarrow> k \<notin> set (writeLog m))"
      by (auto simp: m' update_def Let_def)
    moreover from l n' have "lastDefined (callUpdates m n) key = Some v"
      by (simp add: m' update_def Let_def)
    ultimately have "vault m (callPath m n) key = Some v"
      using assms(1) n' unfolding lastWins_def by blast
    with n' show "vault m' (callPath m' n) key = Some v" by (simp add: m' update_def Let_def)
  qed
next
  case (ThenReaction n)
  with assms(5) have "thenReaction n m = Some m'" by simp
  then show ?thesis
  proof (cases rule: thenReaction_cases)
    case begins
    show ?thesis
      by (rule lastWins_same_vault [OF assms(1)])
         (auto simp: begins(3) beginWrite_def split: if_splits)
  next
    case (skips q e)
    show ?thesis
      by (rule lastWins_same_vault [OF assms(1)]) (auto simp: skips(5) split: if_splits)
  qed
next
  case (WriteSettles i err)
  with assms(5) have "writeSettles i err m = Some m'" by simp
  then show ?thesis
  proof (cases rule: writeSettles_cases)
    case (fail e)
    show ?thesis
      by (rule lastWins_same_vault [OF assms(1)]) (auto simp: fail(4) split: if_splits)
  next
    case ok
    from assms(2) have d: "ordered (calls m) (callPath m) (stage m)" by (simp add: chainOk_def)
    note inlog = in_log_if_writing [OF assms(3) ok(1,2)]
    show ?thesis
      unfolding lastWins_def
    proof (intro allI impI)
      fix n key v
      assume n: "n < calls m'" and h: "outcomeOf (stage m' n) = Some Fulfilled \<and>
          (\<forall>k. n < k \<and> k < calls m' \<and> callPath m' k = callPath m' n \<longrightarrow> k \<notin> set (writeLog m'))"
        and l: "lastDefined (callUpdates m' n) key = Some v"
      from n have n': "n < calls m" by (simp add: ok(4))
      from l have l': "lastDefined (callUpdates m n) key = Some v" by (simp add: ok(4))
      from h have hyp: "\<forall>k. n < k \<and> k < calls m \<and> callPath m k = callPath m n \<longrightarrow>
          k \<notin> set (writeLog m)" by (simp add: ok(4))
      show "vault m' (callPath m' n) key = Some v"
      proof (cases "n = i")
        case True
        with l' show ?thesis by (simp add: ok(4) mergeFields_apply)
      next
        case False
        with h have out: "outcomeOf (stage m n) = Some Fulfilled" by (simp add: ok(4))
        have "callPath m n \<noteq> callPath m i"
        proof
          assume same: "callPath m n = callPath m i"
          from False consider "n < i" | "i < n" by arith
          then show False
          proof cases
            case 1
            with hyp ok(1) same inlog show False by auto
          next
            case 2
            from out have "stage m n \<noteq> Chained" by auto
            with d n' 2 same have "cleaned (stage m i)" unfolding ordered_def by metis
            with ok(2) show False by simp
          qed
        qed
        moreover from assms(1) n' out hyp l' have "vault m (callPath m n) key = Some v"
          unfolding lastWins_def by blast
        ultimately show ?thesis by (simp add: ok(4))
      qed
    qed
  qed
next
  case (FinallyReaction n)
  with assms(5) have "finallyReaction n m = Some m'" by simp
  then show ?thesis
  proof (cases rule: finallyReaction_cases)
    case (1 out)
    show ?thesis
      by (rule lastWins_same_vault [OF assms(1)]) (auto simp: 1 split: if_splits)
  qed
next
  case (Settle n)
  with assms(5) have "settle n m = Some m'" by simp
  then show ?thesis
  proof (cases rule: settle_cases)
    case (1 out)
    show ?thesis
      by (rule lastWins_same_vault [OF assms(1)]) (auto simp: 1 split: if_splits)
  qed
qed

lemma inv_new: "inv (newManager v)"
  by (simp add: inv_def chainOk_new logOk_new snapOk_new fifo_new lastWins_new)

lemma inv_step: "inv m \<Longrightarrow> step ev m = Some m' \<Longrightarrow> inv m'"
  unfolding inv_def
  using chainOk_step logOk_step snapOk_step fifo_step lastWins_step by blast

lemma inv_run: "inv m \<Longrightarrow> runEvents evs m = Some m' \<Longrightarrow> inv m'"
proof (induction evs arbitrary: m)
  case Nil
  then show ?case by simp
next
  case (Cons ev evs)
  then show ?case by (auto split: option.splits dest: inv_step)
qed

lemma step_calls:
  assumes "step ev m = Some m'"
  shows "calls m \<le> calls m' \<and>
         (\<forall>n<calls m. callPath m' n = callPath m n \<and> callUpdates m' n = callUpdates m n) \<and>
         ((\<forall>u. ev \<noteq> Update p u) \<longrightarrow>
            (\<forall>k. calls m \<le> k \<and> k < calls m' \<longrightarrow> callPath m' k \<noteq> p))"
proof (cases ev)
  case (Update p' u)
  with assms show ?thesis by (auto simp: update_def Let_def less_Suc_eq)
next
  case (ThenReaction n)
  with assms have "thenReaction n m = Some m'" by simp
  then show ?thesis by (cases rule: thenReaction_cases) (auto simp: beginWrite_def)
next
  case (WriteSettles n err)
  with assms have "writeSettles n err m = Some m'" by simp
  then show ?thesis by (cases rule: writeSettles_cases) auto
next
  case (FinallyReaction n)
  with assms have "finallyReaction n m = Some m'" by simp
  then show ?thesis by (cases rule: finallyReaction_cases) auto
next
  case (Settle n)
  with assms have "settle n m = Some m'" by simp
  then show ?thesis by (cases rule: settle_cases) auto
qed

lemma run_calls:
  assumes "runEvents evs m = Some m'"
  shows "calls m \<le> calls m' \<and>
         (\<forall>n<calls m. callPath m' n = callPath m n \<and> callUpdates m' n = callUpdates m n) \<and>
         ((\<forall>u. Update p u \<notin> set evs) \<longrightarrow>
            (\<forall>k. calls m \<le> k \<and> k < calls m' \<longrightarrow> callPath m' k \<noteq> p))"
  using assms
proof (induction evs arbitrary: m)
  case Nil
  then show ?case by auto
next
  case (Cons ev evs)
  then obtain m1 where s: "step ev m = Some m1" and r: "runEvents evs m1 = Some m'"
    by (auto split: option.splits)
  note a = step_calls [OF s, of p] and b = Cons.IH [OF r]
  from a b have 1: "calls m \<le> calls m'" by simp
  have 2: "callPath m' n = callPath m n \<and> callUpdates m' n = callUpdates m n"
    if "n < calls m" for n
    using a b that by simp
  have 3: "callPath m' k \<noteq> p"
    if h: "\<forall>u. Update p u \<notin> set (ev # evs)" "calls m \<le> k \<and> k < calls m'" for k
  proof -
    from h have e: "\<forall>u. ev \<noteq> Update p u" and e': "\<forall>u. Update p u \<notin> set evs" by auto
    show ?thesis
    proof (cases "k < calls m1")
      case True
      with a e h(2) b show ?thesis by simp
    next
      case False
      with b e' h(2) show ?thesis by simp
    qed
  qed
  from 1 2 3 show ?case by blast
qed

lemma all_Some_neq: "(\<forall>v. Some v \<noteq> b) \<longleftrightarrow> b = None"
  by (cases b) auto

lemma lastDefined_None: "lastDefined us k = None \<longleftrightarrow> (\<forall>v. (k, Some v) \<notin> set us)"
  by (induction us) (auto split: option.splits simp: all_Some_neq all_conj_distrib)

lemma lastDefined_Some:
  "distinct (map fst us) \<Longrightarrow> (k, Some v) \<in> set us \<Longrightarrow> lastDefined us k = Some v"
proof (induction us)
  case Nil
  then show ?case by simp
next
  case (Cons u us)
  obtain key val where u: "u = (key, val)" by (cases u)
  show ?case
  proof (cases "(k, Some v) \<in> set us")
    case True
    with Cons show ?thesis by (simp add: u)
  next
    case False
    with Cons.prems have kv: "key = k" "val = Some v" and nk: "k \<notin> fst ` set us"
      by (auto simp: u)
    from nk have "\<forall>v'. (k, Some v') \<notin> set us" by force
    then have "lastDefined us k = None" by (simp add: lastDefined_None)
    with kv show ?thesis by (simp add: u)
  qed
qed

section \<open>Progress of the update queues\<close>

text \<open>\<open>idle\<close> is the absence of any event other than a new call of \<open>update\<close>.\<close>

lemma idle_no_step:
  "idle m \<longleftrightarrow> (\<forall>ev. (\<forall>p u. ev \<noteq> Update p u) \<longrightarrow> step ev m = None)"
proof
  assume i: "idle m"
  show "\<forall>ev. (\<forall>p u. ev \<noteq> Update p u) \<longrightarrow> step ev m = None"
  proof (intro allI impI)
    fix ev
    assume "\<forall>p u. ev \<noteq> Update p u"
    then show "step ev m = None"
    proof (cases ev)
      case (ThenReaction n)
      with i show ?thesis by (cases "n < calls m") (auto simp: idle_def thenReaction_def)
    next
      case (WriteSettles n err)
      with i show ?thesis
        by (cases "n < calls m") (auto simp: idle_def writeSettles_def split: if_splits)
    next
      case (FinallyReaction n)
      with i show ?thesis by (cases "n < calls m") (auto simp: idle_def finallyReaction_def)
    next
      case (Settle n)
      with i show ?thesis by (cases "n < calls m") (auto simp: idle_def settle_def)
    qed simp
  qed
next
  assume a: "\<forall>ev. (\<forall>p u. ev \<noteq> Update p u) \<longrightarrow> step ev m = None"
  have "thenReaction n m = None \<and> writeSettles n None m = None \<and>
        finallyReaction n m = None \<and> settle n m = None" for n
    using a [rule_format, of "ThenReaction n"] a [rule_format, of "WriteSettles n None"]
      a [rule_format, of "FinallyReaction n"] a [rule_format, of "Settle n"]
    by simp
  then show "idle m" by (simp add: idle_def)
qed

lemma idle_settled:
  assumes "linked (calls m) (callPath m) (existingQueue m)" "idle m" "n < calls m"
  shows "\<exists>out. stage m n = Settled out"
  using assms(3)
proof (induction n rule: less_induct)
  case (less n)
  from assms(2) less.prems have i: "thenReaction n m = None" "writeSettles n None m = None"
    "finallyReaction n m = None" "settle n m = None"
    by (simp_all add: idle_def)
  show ?case
  proof (cases "stage m n")
    case Chained
    show ?thesis
    proof (cases "existingQueue m n")
      case None
      with Chained less.prems i(1) show ?thesis by (simp add: thenReaction_def)
    next
      case (Some q)
      with assms(1) less.prems have "q < n" unfolding linked_def by blast
      with less.IH less.prems obtain out where "stage m q = Settled out" by fastforce
      with Some Chained less.prems i(1) show ?thesis
        by (cases out) (simp_all add: thenReaction_def)
    qed
  next
    case Writing
    with less.prems i(2) show ?thesis by (simp add: writeSettles_def)
  next
    case (ThenSettled out)
    with less.prems i(3) show ?thesis by (simp add: finallyReaction_def)
  next
    case (FinallyRun out)
    with less.prems i(4) show ?thesis by (simp add: settle_def)
  next
    case (Settled out)
    then show ?thesis by simp
  qed
qed

lemma unrejected_step:
  assumes "linked (calls m) (callPath m) (existingQueue m)"
    and "\<forall>n<calls m. callPath m n = p \<longrightarrow> (\<forall>e. outcomeOf (stage m n) \<noteq> Some (Rejected e))"
    and "step ev m = Some m'"
    and "\<forall>k e. ev = WriteSettles k (Some e) \<longrightarrow> callPath m k \<noteq> p"
  shows "\<forall>n<calls m'. callPath m' n = p \<longrightarrow> (\<forall>e. outcomeOf (stage m' n) \<noteq> Some (Rejected e))"
proof (cases ev)
  case (Update p' u)
  with assms(2,3) show ?thesis by (auto simp: update_def Let_def less_Suc_eq)
next
  case (ThenReaction n)
  with assms(3) have "thenReaction n m = Some m'" by simp
  then show ?thesis
  proof (cases rule: thenReaction_cases)
    case begins
    with assms(2) show ?thesis by (auto simp: beginWrite_def)
  next
    case (skips q e)
    from assms(1) skips(1,3) have q: "q < n" "callPath m q = callPath m n"
      unfolding linked_def by blast+
    with skips(1) have "q < calls m" by simp
    with assms(2) skips(4) q have "callPath m n \<noteq> p" by auto
    with assms(2) skips(5) show ?thesis by auto
  qed
next
  case (WriteSettles n err)
  with assms(3) have "writeSettles n err m = Some m'" by simp
  then show ?thesis
  proof (cases rule: writeSettles_cases)
    case ok
    with assms(2) show ?thesis by auto
  next
    case (fail e)
    with assms(4) WriteSettles have "callPath m n \<noteq> p" by simp
    with assms(2) fail show ?thesis by auto
  qed
next
  case (FinallyReaction n)
  with assms(3) have "finallyReaction n m = Some m'" by simp
  then show ?thesis
  proof (cases rule: finallyReaction_cases)
    case (1 out)
    with assms(2) show ?thesis by (auto split: if_splits)
  qed
next
  case (Settle n)
  with assms(3) have "settle n m = Some m'" by simp
  then show ?thesis
  proof (cases rule: settle_cases)
    case (1 out)
    with assms(2) show ?thesis by (auto split: if_splits)
  qed
qed

lemma unrejected_run:
  assumes "chainOk m"
    and "\<forall>n<calls m. callPath m n = p \<longrightarrow> (\<forall>e. outcomeOf (stage m n) \<noteq> Some (Rejected e))"
    and "runEvents evs m = Some m'"
    and "\<forall>k e. WriteSettles k (Some e) \<in> set evs \<longrightarrow> callPath m' k \<noteq> p"
  shows "\<forall>n<calls m'. callPath m' n = p \<longrightarrow> (\<forall>e. outcomeOf (stage m' n) \<noteq> Some (Rejected e))"
  using assms
proof (induction evs arbitrary: m)
  case Nil
  then show ?case by simp
next
  case (Cons ev evs)
  from Cons.prems(3) obtain m1 where s: "step ev m = Some m1" and r: "runEvents evs m1 = Some m'"
    by (auto split: option.splits)
  from Cons.prems(1) have l: "linked (calls m) (callPath m) (existingQueue m)"
    by (simp add: chainOk_def)
  have w: "callPath m k \<noteq> p" if "ev = WriteSettles k (Some e)" for k e
  proof -
    from that s have "k < calls m" by (auto elim: writeSettles_cases)
    with run_calls [OF Cons.prems(3), of p] have "callPath m' k = callPath m k" by simp
    with Cons.prems(4) that show ?thesis by auto
  qed
  then have "\<forall>k e. ev = WriteSettles k (Some e) \<longrightarrow> callPath m k \<noteq> p" by blast
  from unrejected_step [OF l Cons.prems(2) s this]
  have 1: "\<forall>n<calls m1. callPath m1 n = p \<longrightarrow> (\<forall>e. outcomeOf (stage m1 n) \<noteq> Some (Rejected e))" .
  from Cons.prems(4) have 2: "\<forall>k e. WriteSettles k (Some e) \<in> set evs \<longrightarrow> callPath m' k \<noteq> p"
    by simp
  from Cons.IH [OF chainOk_step [OF Cons.prems(1) s] 1 r 2] show ?case .
qed

lemma left_chained_wrote:
  assumes "logOk m" "n < calls m" "stage m n \<noteq> Chained"
  shows "n \<in> set (writeLog m) \<longleftrightarrow> mayWrite m n"
proof
  assume "n \<in> set (writeLog m)"
  with assms(1,2) have "\<forall>q. existingQueue m n = Some q \<longrightarrow> stage m q = Settled Fulfilled"
    unfolding logOk_def wrote_def by blast
  then show "mayWrite m n" by (simp add: mayWrite_def split: option.splits)
next
  assume w: "mayWrite m n"
  show "n \<in> set (writeLog m)"
  proof (rule ccontr)
    assume "n \<notin> set (writeLog m)"
    with assms obtain q e where "existingQueue m n = Some q" "stage m q = Settled (Rejected e)"
      unfolding logOk_def skipped_def by blast
    with w show False by (simp add: mayWrite_def)
  qed
qed

lemma mayWrite_begins:
  assumes "n < calls m" "stage m n = Chained" "mayWrite m n"
  shows "thenReaction n m = Some (beginWrite n m)"
  using assms by (auto simp: thenReaction_def mayWrite_def split: option.splits)

lemma writes_all_in_order:
  assumes "logOk m" "fifo m"
    and "\<forall>n<calls m. callPath m n = p \<longrightarrow> n \<in> set (writeLog m)"
  shows "filter (\<lambda>n. callPath m n = p) (writeLog m) = filter (\<lambda>n. callPath m n = p) [0..<calls m]"
proof -
  from assms(2) have a: "sorted_wrt (<) (filter (\<lambda>n. callPath m n = p) (writeLog m))"
    by (simp add: fifo_def)
  have b: "sorted_wrt (<) (filter (\<lambda>n. callPath m n = p) [0..<calls m])"
    by (simp add: sorted_wrt_filter)
  from assms(1) have "\<forall>n\<in>set (writeLog m). n < calls m" by (simp add: logOk_def)
  with assms(3)
  have c: "set (filter (\<lambda>n. callPath m n = p) (writeLog m)) =
        set (filter (\<lambda>n. callPath m n = p) [0..<calls m])"
    by auto
  from strict_sorted_equal [OF b a c] show ?thesis .
qed

lemma settled_idle:
  assumes "\<forall>n<calls m. \<exists>out. stage m n = Settled out"
  shows "idle m"
  unfolding idle_def
proof (intro allI impI)
  fix n
  assume "n < calls m"
  with assms obtain out where "stage m n = Settled out" by blast
  then show "thenReaction n m = None \<and> writeSettles n None m = None \<and>
      finallyReaction n m = None \<and> settle n m = None"
    by (simp add: thenReaction_def writeSettles_def finallyReaction_def settle_def)
qed

lemma less_3_cases_iff: "n < (3::nat) \<longleftrightarrow> n = 0 \<or> n = 1 \<or> n = 2"
  by arith

lemma rank_le: "rank s \<le> 4"
  by (cases s) simp_all

lemma remaining_stage:
  assumes "n < calls m" "calls m' = calls m" "stage m' = (stage m)(n := s)" "rank (stage m n) < rank s"
  shows "remaining m' < remaining m"
  unfolding remaining_def assms(2)
proof (rule sum_strict_mono_ex1)
  show "finite {..<calls m}" by simp
  show "\<forall>x\<in>{..<calls m}. 4 - rank (stage m' x) \<le> 4 - rank (stage m x)"
    using assms(4) by (auto simp: assms(3))
  from assms(1,4) rank_le [of s] show "\<exists>a\<in>{..<calls m}. 4 - rank (stage m' a) < 4 - rank (stage m a)"
    by (intro bexI [of _ n]) (simp_all add: assms(3))
qed

lemma step_remaining:
  assumes "step ev m = Some m'" "\<forall>p u. ev \<noteq> Update p u"
  shows "remaining m' < remaining m"
proof (cases ev)
  case (Update p u)
  with assms(2) show ?thesis by simp
next
  case (ThenReaction n)
  with assms(1) have "thenReaction n m = Some m'" by simp
  then show ?thesis
  proof (cases rule: thenReaction_cases)
    case begins
    show ?thesis by (rule remaining_stage [OF begins(1), of _ Writing]) (simp_all add: begins beginWrite_def)
  next
    case (skips q e)
    show ?thesis
      by (rule remaining_stage [OF skips(1), of _ "ThenSettled (Rejected e)"]) (simp_all add: skips)
  qed
next
  case (WriteSettles n err)
  with assms(1) have "writeSettles n err m = Some m'" by simp
  then show ?thesis
  proof (cases rule: writeSettles_cases)
    case ok
    show ?thesis
      by (rule remaining_stage [OF ok(1), of _ "ThenSettled Fulfilled"]) (simp_all add: ok)
  next
    case (fail e)
    show ?thesis
      by (rule remaining_stage [OF fail(1), of _ "ThenSettled (Rejected e)"]) (simp_all add: fail)
  qed
next
  case (FinallyReaction n)
  with assms(1) have "finallyReaction n m = Some m'" by simp
  then show ?thesis
  proof (cases rule: finallyReaction_cases)
    case (1 out)
    show ?thesis
      by (rule remaining_stage [OF 1(1), of _ "FinallyRun out"]) (simp_all add: 1)
  qed
next
  case (Settle n)
  with assms(1) have "settle n m = Some m'" by simp
  then show ?thesis
  proof (cases rule: settle_cases)
    case (1 out)
    show ?thesis
      by (rule remaining_stage [OF 1(1), of _ "Settled out"]) (simp_all add: 1)
  qed
qed

lemma not_idle_step:
  assumes "\<not> idle m"
  obtains ev m' where "step ev m = Some m'" "\<forall>p u. ev \<noteq> Update p u"
    "\<forall>k e. ev \<noteq> WriteSettles k (Some e)"
proof -
  from assms obtain n where "thenReaction n m \<noteq> None \<or> writeSettles n None m \<noteq> None \<or>
      finallyReaction n m \<noteq> None \<or> settle n m \<noteq> None"
    unfolding idle_def by blast
  then consider "step (ThenReaction n) m \<noteq> None" | "step (WriteSettles n None) m \<noteq> None"
    | "step (FinallyReaction n) m \<noteq> None" | "step (Settle n) m \<noteq> None"
    by auto
  then show ?thesis
  proof cases
    case 1
    then obtain m' where "step (ThenReaction n) m = Some m'" by auto
    then show ?thesis by (rule that) simp_all
  next
    case 2
    then obtain m' where "step (WriteSettles n None) m = Some m'" by auto
    then show ?thesis by (rule that) simp_all
  next
    case 3
    then obtain m' where "step (FinallyReaction n) m = Some m'" by auto
    then show ?thesis by (rule that) simp_all
  next
    case 4
    then obtain m' where "step (Settle n) m = Some m'" by auto
    then show ?thesis by (rule that) simp_all
  qed
qed

lemma runs_dry:
  "\<exists>evs' m'. runEvents evs' m = Some m' \<and> idle m' \<and> (\<forall>p u. Update p u \<notin> set evs') \<and>
     (\<forall>k e. WriteSettles k (Some e) \<notin> set evs')"
proof (induction m rule: measure_induct_rule [of remaining])
  case (less m)
  show ?case
  proof (cases "idle m")
    case True
    then have "runEvents [] m = Some m \<and> idle m \<and> (\<forall>p u. Update p u \<notin> set []) \<and>
        (\<forall>k e. WriteSettles k (Some e) \<notin> set [])"
      by simp
    then show ?thesis by blast
  next
    case False
    then obtain ev m1 where s: "step ev m = Some m1" "\<forall>p u. ev \<noteq> Update p u"
      "\<forall>k e. ev \<noteq> WriteSettles k (Some e)"
      by (rule not_idle_step)
    from less.IH [OF step_remaining [OF s(1,2)]] obtain evs' m' where
      r: "runEvents evs' m1 = Some m'" "idle m'" "\<forall>p u. Update p u \<notin> set evs'"
        "\<forall>k e. WriteSettles k (Some e) \<notin> set evs'"
      by blast
    from s r have "runEvents (ev # evs') m = Some m' \<and> idle m' \<and>
        (\<forall>p u. Update p u \<notin> set (ev # evs')) \<and>
        (\<forall>k e. WriteSettles k (Some e) \<notin> set (ev # evs'))"
      by auto
    then show ?thesis by blast
  qed
qed

lemma run_length:
  assumes "runEvents evs m = Some m'" "\<forall>p u. Update p u \<notin> set evs"
  shows "length evs + remaining m' \<le> remaining m"
  using assms
proof (induction evs arbitrary: m)
  case Nil
  then show ?case by simp
next
  case (Cons ev evs)
  from Cons.prems(1) obtain m1 where s: "step ev m = Some m1" and r: "runEvents evs m1 = Some m'"
    by (auto split: option.splits)
  from Cons.prems(2) have "\<forall>p u. ev \<noteq> Update p u" "\<forall>p u. Update p u \<notin> set evs" by auto
  with step_remaining [OF s] Cons.IH [OF r] show ?case by simp
qed


lemma remaining_le: "remaining m \<le> 4 * calls m"
proof -
  have "(\<Sum>n<calls m. 4 - rank (stage m n)) \<le> of_nat (card {..<calls m}) * 4"
    by (rule sum_bounded_above) simp
  then show ?thesis by (simp add: remaining_def)
qed

lemma run_bounded:
  assumes "runEvents evs m = Some m'" "\<forall>p u. Update p u \<notin> set evs"
  shows "length evs \<le> 4 * calls m"
  using run_length [OF assms] remaining_le [of m] by simp

lemma run_append:
  "runEvents (a @ b) m = (case runEvents a m of None \<Rightarrow> None | Some m' \<Rightarrow> runEvents b m')"
  by (induction a arbitrary: m) (auto split: option.splits)

section \<open>Serialised updates\<close>

text \<open>
  \<^bold>\<open>C2\<close>, as stated, gives the final persisted status as \<open>b\<close> without condition. In the
  run where the second update is requested while the first write is in flight and that
  write fails with \<open>EIO\<close>, the second call never begins a merge-write (the log holds call
  0 only), both calls settle rejected with \<open>EIO\<close>, and the persisted status stays \<open>todo\<close>.
\<close>

theorem second_update_lost_after_failed_first:
  "map_option (\<lambda>m. (writeLog m, stage m 0, stage m 1, vault m ''a.md'' ''vk_status''))
       (runEvents firstFailsInFlight (newManager noteVault))
     = Some ([0], Settled (Rejected ''EIO''), Settled (Rejected ''EIO''), Some ''todo'')"
  by (simp add: firstFailsInFlight_def noteVault_def manager_eval)

text \<open>
  \<^bold>\<open>C2\<close>, as amended. In every state that a run reaches from a new manager:
  \<^item> at most one merge-write per path is in flight;
  \<^item> a call has left \<open>Chained\<close> only when every earlier call for its path has settled its
    write and run its cleanup;
  \<^item> the merge-writes of a path begin in the order of the calls;
  \<^item> what a write in flight has read is what is persisted, so that no other merge comes
    between its read and its write;
  \<^item> the reaction of a call that waits behind no promise or a fulfilled one begins its
    merge-write, and the calls that have begun a merge-write are exactly those that left
    \<open>Chained\<close> behind no promise or a fulfilled one;
  \<^item> when nothing remains to run, every call has settled; without a further call of
    \<open>update\<close> at most four events per call can happen; and the reactions and the writes
    can always run, with no write failing, until nothing remains to run;
  \<^item> when no merge-write for the path \<open>p\<close> failed in the run, no call for \<open>p\<close> is
    rejected; when moreover nothing remains to run, every call for \<open>p\<close> is fulfilled, the
    merge-writes begun for \<open>p\<close> are the calls for \<open>p\<close> in the order of the calls, and the
    fields that the latest call for \<open>p\<close> defines are persisted with its values;
  \<^item> the fields that a fulfilled call defines are persisted with its values as long as no
    later call for its path has begun a merge-write;
  \<^item> for a call \<open>j\<close> for \<open>p\<close> that found the promise of call \<open>i\<close> in the map and sets the
    field \<open>f\<close> to \<open>b\<close>, with no later call for \<open>p\<close>: \<open>i\<close> is an earlier call for \<open>p\<close>, the
    write of \<open>j\<close> begins only after \<open>i\<close> has settled its write and run its cleanup, \<open>j\<close>
    begins no merge-write when \<open>i\<close> is rejected, \<open>f\<close> is persisted as \<open>b\<close> once \<open>j\<close> is
    fulfilled, and \<open>f\<close> is persisted as \<open>b\<close> when nothing remains to run and no
    merge-write for \<open>p\<close> failed;
  \<^item> for a run that begins with two calls for \<open>p\<close> setting the field \<open>f\<close> to \<open>a\<close> and then
    to \<open>b\<close>, followed by any events but a further call for \<open>p\<close>: \<open>f\<close> is persisted as
    \<open>b\<close> once the second call is fulfilled; when nothing remains to run and no
    merge-write for \<open>p\<close> failed, both calls have settled fulfilled and \<open>f\<close> is persisted
    as \<open>b\<close>.
\<close>

theorem update_serialized:
  assumes "runEvents evs (newManager v) = Some m"
  shows "(\<forall>i<calls m. \<forall>j<calls m.
            stage m i = Writing \<and> stage m j = Writing \<and> callPath m i = callPath m j \<longrightarrow> i = j) \<and>
         (\<forall>n<calls m. \<forall>k<n.
            callPath m k = callPath m n \<and> stage m n \<noteq> Chained \<longrightarrow> cleaned (stage m k)) \<and>
         (\<forall>p. sorted_wrt (<) (filter (\<lambda>n. callPath m n = p) (writeLog m))) \<and>
         (\<forall>n<calls m. stage m n = Writing \<longrightarrow> snapshot m n = vault m (callPath m n)) \<and>
         (\<forall>n<calls m. stage m n = Chained \<and> mayWrite m n \<longrightarrow>
            thenReaction n m = Some (beginWrite n m)) \<and>
         (\<forall>n<calls m. stage m n \<noteq> Chained \<and> mayWrite m n \<longrightarrow> n \<in> set (writeLog m)) \<and>
         (\<forall>n<calls m. n \<in> set (writeLog m) \<longrightarrow> stage m n \<noteq> Chained \<and> mayWrite m n) \<and>
         (idle m \<longrightarrow> (\<forall>n<calls m. \<exists>out. stage m n = Settled out)) \<and>
         (\<forall>evs' m'. runEvents evs' m = Some m' \<and> (\<forall>p u. Update p u \<notin> set evs') \<longrightarrow>
            length evs' \<le> 4 * calls m) \<and>
         (\<exists>evs' m'. runEvents evs' m = Some m' \<and> idle m' \<and> (\<forall>p u. Update p u \<notin> set evs') \<and>
            (\<forall>k e. WriteSettles k (Some e) \<notin> set evs')) \<and>
         ((\<forall>k e. WriteSettles k (Some e) \<in> set evs \<longrightarrow> callPath m k \<noteq> p) \<longrightarrow>
            (\<forall>n<calls m. callPath m n = p \<longrightarrow>
               (\<forall>e. outcomeOf (stage m n) \<noteq> Some (Rejected e)))) \<and>
         (idle m \<and> (\<forall>k e. WriteSettles k (Some e) \<in> set evs \<longrightarrow> callPath m k \<noteq> p) \<longrightarrow>
            (\<forall>n<calls m. callPath m n = p \<longrightarrow> stage m n = Settled Fulfilled) \<and>
            filter (\<lambda>n. callPath m n = p) (writeLog m)
              = filter (\<lambda>n. callPath m n = p) [0..<calls m] \<and>
            (\<forall>n<calls m. callPath m n = p \<and>
               (\<forall>k. n < k \<and> k < calls m \<longrightarrow> callPath m k \<noteq> p) \<longrightarrow>
               (\<forall>key val. lastDefined (callUpdates m n) key = Some val \<longrightarrow>
                  vault m p key = Some val))) \<and>
         (\<forall>n<calls m.
            outcomeOf (stage m n) = Some Fulfilled \<and>
            (\<forall>k. n < k \<and> k < calls m \<and> callPath m k = callPath m n \<longrightarrow> k \<notin> set (writeLog m)) \<longrightarrow>
            (\<forall>key val. lastDefined (callUpdates m n) key = Some val \<longrightarrow>
               vault m (callPath m n) key = Some val)) \<and>
         (\<forall>i j. j < calls m \<and> existingQueue m j = Some i \<and> callPath m j = p \<and>
                callUpdates m j = [(f, Some b)] \<and>
                (\<forall>k. j < k \<and> k < calls m \<longrightarrow> callPath m k \<noteq> p) \<longrightarrow>
            i < j \<and> callPath m i = p \<and>
            (stage m j \<noteq> Chained \<longrightarrow> cleaned (stage m i)) \<and>
            (\<forall>e. outcomeOf (stage m i) = Some (Rejected e) \<longrightarrow> j \<notin> set (writeLog m)) \<and>
            (outcomeOf (stage m j) = Some Fulfilled \<longrightarrow> vault m p f = Some b) \<and>
            (idle m \<and> (\<forall>k e. WriteSettles k (Some e) \<in> set evs \<longrightarrow> callPath m k \<noteq> p) \<longrightarrow>
               vault m p f = Some b)) \<and>
         (evs = Update p [(f, Some a)] # Update p [(f, Some b)] # rest \<and>
          (\<forall>u. Update p u \<notin> set rest) \<longrightarrow>
            (outcomeOf (stage m 1) = Some Fulfilled \<longrightarrow> vault m p f = Some b) \<and>
            (idle m \<and> (\<forall>k e. WriteSettles k (Some e) \<in> set rest \<longrightarrow> callPath m k \<noteq> p) \<longrightarrow>
               stage m 0 = Settled Fulfilled \<and> stage m 1 = Settled Fulfilled \<and>
               vault m p f = Some b))"
proof -
  from inv_run [OF inv_new assms] have i: "chainOk m" "logOk m" "snapOk m" "fifo m" "lastWins m"
    by (simp_all add: inv_def)
  from i(1) have d: "ordered (calls m) (callPath m) (stage m)"
    and l: "linked (calls m) (callPath m) (existingQueue m)"
    by (simp_all add: chainOk_def)
  have 1: "\<forall>i<calls m. \<forall>j<calls m.
      stage m i = Writing \<and> stage m j = Writing \<and> callPath m i = callPath m j \<longrightarrow> i = j"
    using one_in_flight [OF d] by blast
  from d have 2: "\<forall>n<calls m. \<forall>k<n.
      callPath m k = callPath m n \<and> stage m n \<noteq> Chained \<longrightarrow> cleaned (stage m k)"
    unfolding ordered_def .
  from i(4) have 3: "\<forall>p. sorted_wrt (<) (filter (\<lambda>n. callPath m n = p) (writeLog m))"
    unfolding fifo_def .
  from i(3) have 4: "\<forall>n<calls m. stage m n = Writing \<longrightarrow> snapshot m n = vault m (callPath m n)"
    unfolding snapOk_def .
  have 5: "\<forall>n<calls m. stage m n = Chained \<and> mayWrite m n \<longrightarrow>
      thenReaction n m = Some (beginWrite n m)"
    using mayWrite_begins by blast
  have 6: "\<forall>n<calls m. stage m n \<noteq> Chained \<and> mayWrite m n \<longrightarrow> n \<in> set (writeLog m)"
    using left_chained_wrote [OF i(2)] by blast
  have 7: "\<forall>n<calls m. n \<in> set (writeLog m) \<longrightarrow> stage m n \<noteq> Chained \<and> mayWrite m n"
  proof (intro allI impI)
    fix n
    assume n: "n < calls m" "n \<in> set (writeLog m)"
    with i(2) have "stage m n \<noteq> Chained" unfolding logOk_def wrote_def by blast
    with left_chained_wrote [OF i(2) n(1)] n(2) show "stage m n \<noteq> Chained \<and> mayWrite m n"
      by simp
  qed
  have 8: "\<forall>n<calls m. \<exists>out. stage m n = Settled out" if "idle m"
    using idle_settled [OF l that] by blast
  have 9: "\<forall>n<calls m. callPath m n = p \<longrightarrow> (\<forall>e. outcomeOf (stage m n) \<noteq> Some (Rejected e))"
    if "\<forall>k e. WriteSettles k (Some e) \<in> set evs \<longrightarrow> callPath m k \<noteq> p" for p
    by (rule unrejected_run [OF chainOk_new _ assms that]) (simp add: newManager_def)
  from i(5) have 11: "\<forall>n<calls m.
      outcomeOf (stage m n) = Some Fulfilled \<and>
      (\<forall>k. n < k \<and> k < calls m \<and> callPath m k = callPath m n \<longrightarrow> k \<notin> set (writeLog m)) \<longrightarrow>
      (\<forall>key val. lastDefined (callUpdates m n) key = Some val \<longrightarrow>
         vault m (callPath m n) key = Some val)"
    unfolding lastWins_def .
  have 10: "(\<forall>n<calls m. callPath m n = p \<longrightarrow> stage m n = Settled Fulfilled) \<and>
      filter (\<lambda>n. callPath m n = p) (writeLog m) = filter (\<lambda>n. callPath m n = p) [0..<calls m] \<and>
      (\<forall>n<calls m. callPath m n = p \<and> (\<forall>k. n < k \<and> k < calls m \<longrightarrow> callPath m k \<noteq> p) \<longrightarrow>
         (\<forall>key val. lastDefined (callUpdates m n) key = Some val \<longrightarrow> vault m p key = Some val))"
    if a: "idle m" and b: "\<forall>k e. WriteSettles k (Some e) \<in> set evs \<longrightarrow> callPath m k \<noteq> p" for p
  proof -
    have s: "stage m n = Settled Fulfilled" if n: "n < calls m" "callPath m n = p" for n
    proof -
      from 8 [OF a] n(1) obtain out where o: "stage m n = Settled out" by blast
      with 9 [OF b] n show ?thesis by (cases out) auto
    qed
    have "n \<in> set (writeLog m)" if n: "n < calls m" "callPath m n = p" for n
    proof (rule ccontr)
      assume "n \<notin> set (writeLog m)"
      with i(2) n(1) s [OF n] have "\<exists>q e. existingQueue m n = Some q \<and>
          stage m q = Settled (Rejected e) \<and> outcomeOf (stage m n) = Some (Rejected e)"
        unfolding logOk_def skipped_def by auto
      with s [OF n] show False by simp
    qed
    then have "\<forall>n<calls m. callPath m n = p \<longrightarrow> n \<in> set (writeLog m)" by blast
    note o = writes_all_in_order [OF i(2,4) this]
    have "vault m p key = Some val"
      if n: "n < calls m" "callPath m n = p" "\<forall>k. n < k \<and> k < calls m \<longrightarrow> callPath m k \<noteq> p"
        and ld: "lastDefined (callUpdates m n) key = Some val" for n key val
    proof -
      from n have "\<forall>k. n < k \<and> k < calls m \<and> callPath m k = callPath m n \<longrightarrow>
          k \<notin> set (writeLog m)"
        by auto
      moreover from s [OF n(1,2)] have "outcomeOf (stage m n) = Some Fulfilled" by simp
      ultimately have "vault m (callPath m n) key = Some val" using 11 n(1) ld by blast
      with n(2) show ?thesis by simp
    qed
    with o s show ?thesis by blast
  qed
  have 12: "i < j \<and> callPath m i = p \<and>
      (stage m j \<noteq> Chained \<longrightarrow> cleaned (stage m i)) \<and>
      (\<forall>e. outcomeOf (stage m i) = Some (Rejected e) \<longrightarrow> j \<notin> set (writeLog m)) \<and>
      (outcomeOf (stage m j) = Some Fulfilled \<longrightarrow> vault m p f = Some b) \<and>
      (idle m \<and> (\<forall>k e. WriteSettles k (Some e) \<in> set evs \<longrightarrow> callPath m k \<noteq> p) \<longrightarrow>
         vault m p f = Some b)"
    if h: "j < calls m" "existingQueue m j = Some i" "callPath m j = p"
      "callUpdates m j = [(f, Some b)]" "\<forall>k. j < k \<and> k < calls m \<longrightarrow> callPath m k \<noteq> p"
    for i j
  proof -
    from l h(1,2,3) have ij: "i < j" "callPath m i = p" unfolding linked_def by auto
    from 2 h(1,3) ij have c: "stage m j \<noteq> Chained \<longrightarrow> cleaned (stage m i)" by blast
    have x: "j \<notin> set (writeLog m)" if "outcomeOf (stage m i) = Some (Rejected e)" for e
    proof
      assume "j \<in> set (writeLog m)"
      with 7 h(1) have "mayWrite m j" by blast
      with h(2) have "stage m i = Settled Fulfilled" by (simp add: mayWrite_def)
      with that show False by simp
    qed
    have w: "vault m p f = Some b" if "outcomeOf (stage m j) = Some Fulfilled"
    proof -
      from h(3,5) have "\<forall>k. j < k \<and> k < calls m \<and> callPath m k = callPath m j \<longrightarrow>
          k \<notin> set (writeLog m)"
        by auto
      with 11 h(1) that have "\<forall>key val. lastDefined (callUpdates m j) key = Some val \<longrightarrow>
          vault m (callPath m j) key = Some val"
        by blast
      with h(3,4) show ?thesis by simp
    qed
    have "vault m p f = Some b"
      if "idle m" "\<forall>k e. WriteSettles k (Some e) \<in> set evs \<longrightarrow> callPath m k \<noteq> p"
    proof -
      from 10 [OF that] h(1,3) have "stage m j = Settled Fulfilled" by blast
      then show ?thesis by (simp add: w)
    qed
    with ij c x w show ?thesis by blast
  qed
  from 9 have n9: "(\<forall>k e. WriteSettles k (Some e) \<in> set evs \<longrightarrow> callPath m k \<noteq> p) \<longrightarrow>
      (\<forall>n<calls m. callPath m n = p \<longrightarrow> (\<forall>e. outcomeOf (stage m n) \<noteq> Some (Rejected e)))"
    by blast
  from 10 have n10: "idle m \<and> (\<forall>k e. WriteSettles k (Some e) \<in> set evs \<longrightarrow> callPath m k \<noteq> p) \<longrightarrow>
      (\<forall>n<calls m. callPath m n = p \<longrightarrow> stage m n = Settled Fulfilled) \<and>
      filter (\<lambda>n. callPath m n = p) (writeLog m) = filter (\<lambda>n. callPath m n = p) [0..<calls m] \<and>
      (\<forall>n<calls m. callPath m n = p \<and> (\<forall>k. n < k \<and> k < calls m \<longrightarrow> callPath m k \<noteq> p) \<longrightarrow>
         (\<forall>key val. lastDefined (callUpdates m n) key = Some val \<longrightarrow> vault m p key = Some val))"
    by blast
  from 8 have n8: "idle m \<longrightarrow> (\<forall>n<calls m. \<exists>out. stage m n = Settled out)" by blast
  have b8: "\<forall>evs' m'. runEvents evs' m = Some m' \<and> (\<forall>p u. Update p u \<notin> set evs') \<longrightarrow>
      length evs' \<le> 4 * calls m"
    using run_bounded by blast
  note c8 = runs_dry [of m]
  from 12 have n12: "\<forall>i j. j < calls m \<and> existingQueue m j = Some i \<and> callPath m j = p \<and>
        callUpdates m j = [(f, Some b)] \<and>
        (\<forall>k. j < k \<and> k < calls m \<longrightarrow> callPath m k \<noteq> p) \<longrightarrow>
      i < j \<and> callPath m i = p \<and>
      (stage m j \<noteq> Chained \<longrightarrow> cleaned (stage m i)) \<and>
      (\<forall>e. outcomeOf (stage m i) = Some (Rejected e) \<longrightarrow> j \<notin> set (writeLog m)) \<and>
      (outcomeOf (stage m j) = Some Fulfilled \<longrightarrow> vault m p f = Some b) \<and>
      (idle m \<and> (\<forall>k e. WriteSettles k (Some e) \<in> set evs \<longrightarrow> callPath m k \<noteq> p) \<longrightarrow>
         vault m p f = Some b)"
    by blast
  have 13: "(outcomeOf (stage m 1) = Some Fulfilled \<longrightarrow> vault m p f = Some b) \<and>
      (idle m \<and> (\<forall>k e. WriteSettles k (Some e) \<in> set rest \<longrightarrow> callPath m k \<noteq> p) \<longrightarrow>
         stage m 0 = Settled Fulfilled \<and> stage m 1 = Settled Fulfilled \<and> vault m p f = Some b)"
    if e: "evs = Update p [(f, Some a)] # Update p [(f, Some b)] # rest"
      and nu: "\<forall>u. Update p u \<notin> set rest"
  proof -
    define m2 where "m2 = update p [(f, Some b)] (update p [(f, Some a)] (newManager v))"
    from assms e have r: "runEvents rest m2 = Some m" by (simp add: m2_def)
    have c2: "calls m2 = 2" "callPath m2 0 = p" "callPath m2 1 = p"
      "callUpdates m2 1 = [(f, Some b)]"
      by (simp_all add: m2_def update_def newManager_def Let_def)
    from run_calls [OF r, of p] nu c2 have c: "0 < calls m" "1 < calls m" "callPath m 0 = p"
      "callPath m 1 = p" "callUpdates m 1 = [(f, Some b)]"
      "\<forall>k. 2 \<le> k \<and> k < calls m \<longrightarrow> callPath m k \<noteq> p"
      by auto
    then have la: "\<forall>k. 1 < k \<and> k < calls m \<longrightarrow> callPath m k \<noteq> p" by auto
    have w: "vault m p f = Some b" if "outcomeOf (stage m 1) = Some Fulfilled"
    proof -
      from la c(4) have "\<forall>k. 1 < k \<and> k < calls m \<and> callPath m k = callPath m 1 \<longrightarrow>
          k \<notin> set (writeLog m)"
        by auto
      with 11 c(2) that have "\<forall>key val. lastDefined (callUpdates m 1) key = Some val \<longrightarrow>
          vault m (callPath m 1) key = Some val"
        by blast
      with c(4,5) show ?thesis by simp
    qed
    have "stage m 0 = Settled Fulfilled \<and> stage m 1 = Settled Fulfilled \<and> vault m p f = Some b"
      if id: "idle m" and nf: "\<forall>k e. WriteSettles k (Some e) \<in> set rest \<longrightarrow> callPath m k \<noteq> p"
    proof -
      from nf e have "\<forall>k e. WriteSettles k (Some e) \<in> set evs \<longrightarrow> callPath m k \<noteq> p" by simp
      from 10 [OF id this] c(1,2,3,4)
      have s: "stage m 0 = Settled Fulfilled" "stage m 1 = Settled Fulfilled" by blast+
      with w show ?thesis by simp
    qed
    with w show ?thesis by blast
  qed
  then have n13: "evs = Update p [(f, Some a)] # Update p [(f, Some b)] # rest \<and>
      (\<forall>u. Update p u \<notin> set rest) \<longrightarrow>
        (outcomeOf (stage m 1) = Some Fulfilled \<longrightarrow> vault m p f = Some b) \<and>
        (idle m \<and> (\<forall>k e. WriteSettles k (Some e) \<in> set rest \<longrightarrow> callPath m k \<noteq> p) \<longrightarrow>
           stage m 0 = Settled Fulfilled \<and> stage m 1 = Settled Fulfilled \<and>
           vault m p f = Some b)"
    by blast
  show ?thesis
    by (intro conjI) (rule 1 2 3 4 5 6 7 n8 b8 c8 n9 n10 11 n12 n13)+
qed

text \<open>
  Two calls with both writes succeeding: the writes begin in the order 0, 1, nothing remains
  to run and the persisted status is \<open>b\<close>. Three calls with all writes succeeding: the
  third queued write begins after the second, and the persisted status is \<open>c\<close>. The
  reaction of the second call cannot run while the first write is in flight.
\<close>

theorem update_serialized_witness:
  "map_option report (runEvents bothSucceed (newManager noVault))
     = Some ([0, 1], Settled Fulfilled, Settled Fulfilled, Some ''b'') \<and>
   map_option (\<lambda>m. (writeLog m, map (stage m) [0, 1, 2], vault m ''a.md'' ''vk_status''))
       (runEvents threeSucceed (newManager noVault))
     = Some ([0, 1, 2], [Settled Fulfilled, Settled Fulfilled, Settled Fulfilled], Some ''c'') \<and>
   runEvents (twoUpdates @ [ThenReaction 0, ThenReaction 1]) (newManager noVault) = None"
proof -
  have r: "map_option (\<lambda>m. (report m, calls m, callPath m 1, callUpdates m 1, existingQueue m 1))
        (runEvents bothSucceed (newManager noVault))
     = Some (([0, 1], Settled Fulfilled, Settled Fulfilled, Some ''b''), 2, ''a.md'',
             [(''vk_status'', Some ''b'')], Some 0)"
    by (simp add: bothSucceed_def report_def manager_eval)
  then obtain m where m: "runEvents bothSucceed (newManager noVault) = Some m"
    and rep: "report m = ([0, 1], Settled Fulfilled, Settled Fulfilled, Some ''b'')"
    and c: "calls m = 2" "callPath m 1 = ''a.md''" "callUpdates m 1 = [(''vk_status'', Some ''b'')]"
      "existingQueue m 1 = Some 0"
    by auto
  from rep have st: "stage m 0 = Settled Fulfilled" "stage m 1 = Settled Fulfilled"
    by (simp_all add: report_def)
  from st have "stage m (Suc 0) = Settled Fulfilled" by simp
  with st have idl: "idle m"
    by (intro settled_idle) (auto simp: c less_2_cases_iff)
  have nf: "\<forall>k e. WriteSettles k (Some e) \<in> set bothSucceed \<longrightarrow> callPath m k \<noteq> ''a.md''"
    by (simp add: bothSucceed_def twoUpdates_def)
  have last: "\<forall>k. 1 < k \<and> k < calls m \<longrightarrow> callPath m k \<noteq> ''a.md''"
    unfolding c by arith
  have e: "bothSucceed = Update ''a.md'' [(''vk_status'', Some ''a'')]
      # Update ''a.md'' [(''vk_status'', Some ''b'')]
      # [ThenReaction 0, WriteSettles 0 None, FinallyReaction 0, Settle 0,
         ThenReaction 1, WriteSettles 1 None, FinallyReaction 1, Settle 1]"
    by (simp add: bothSucceed_def twoUpdates_def)
  have n: "\<forall>u. Update ''a.md'' u \<notin> set [ThenReaction 0, WriteSettles 0 None,
      FinallyReaction 0, Settle 0, ThenReaction 1, WriteSettles 1 None, FinallyReaction 1, Settle 1]"
    by simp
  have nr: "\<forall>k e. WriteSettles k (Some e) \<in> set [ThenReaction 0, WriteSettles 0 None,
      FinallyReaction 0, Settle 0, ThenReaction 1, WriteSettles 1 None, FinallyReaction 1, Settle 1]
      \<longrightarrow> callPath m k \<noteq> ''a.md''"
    by simp
  from update_serialized [OF m, where p = "''a.md''" and f = "''vk_status''" and a = "''a''"
      and b = "''b''" and rest = "[ThenReaction 0, WriteSettles 0 None, FinallyReaction 0, Settle 0,
        ThenReaction 1, WriteSettles 1 None, FinallyReaction 1, Settle 1]"] e n idl nr
  have sc: "stage m 0 = Settled Fulfilled \<and> stage m 1 = Settled Fulfilled \<and>
      vault m ''a.md'' ''vk_status'' = Some ''b''"
    by blast
  from update_serialized [OF m, where p = "''a.md''" and f = "''vk_status''" and b = "''b''"]
  have "\<forall>i j. j < calls m \<and> existingQueue m j = Some i \<and> callPath m j = ''a.md'' \<and>
          callUpdates m j = [(''vk_status'', Some ''b'')] \<and>
          (\<forall>k. j < k \<and> k < calls m \<longrightarrow> callPath m k \<noteq> ''a.md'') \<longrightarrow>
        (idle m \<and> (\<forall>k e. WriteSettles k (Some e) \<in> set bothSucceed \<longrightarrow>
             callPath m k \<noteq> ''a.md'') \<longrightarrow>
           vault m ''a.md'' ''vk_status'' = Some ''b'')"
    by blast
  moreover have "(1::nat) < calls m" by (simp add: c)
  ultimately have b: "vault m ''a.md'' ''vk_status'' = Some ''b''"
    using c(2,3,4) idl nf last by blast
  have r3: "map_option (\<lambda>m. ((writeLog m, map (stage m) [0, 1, 2], vault m ''a.md'' ''vk_status''),
          calls m, callPath m 2, callUpdates m 2, existingQueue m 2))
        (runEvents threeSucceed (newManager noVault))
     = Some (([0, 1, 2], [Settled Fulfilled, Settled Fulfilled, Settled Fulfilled], Some ''c''),
             3, ''a.md'', [(''vk_status'', Some ''c'')], Some 1)"
    by (simp add: threeSucceed_def manager_eval)
  then obtain m3 where m3: "runEvents threeSucceed (newManager noVault) = Some m3"
    and c3: "calls m3 = 3" "callPath m3 2 = ''a.md''"
      "callUpdates m3 2 = [(''vk_status'', Some ''c'')]" "existingQueue m3 2 = Some 1"
      "stage m3 0 = Settled Fulfilled" "stage m3 1 = Settled Fulfilled"
      "stage m3 2 = Settled Fulfilled" "writeLog m3 = [0, 1, 2]"
    by auto
  from c3 have "stage m3 (Suc 0) = Settled Fulfilled" by simp
  with c3 have idl3: "idle m3"
    by (intro settled_idle) (auto simp: less_3_cases_iff)
  have nf3: "\<forall>k e. WriteSettles k (Some e) \<in> set threeSucceed \<longrightarrow> callPath m3 k \<noteq> ''a.md''"
    by (simp add: threeSucceed_def)
  from update_serialized [OF m3, where p = "''a.md''" and f = "''vk_status''" and b = "''c''"]
  have "\<forall>i j. j < calls m3 \<and> existingQueue m3 j = Some i \<and> callPath m3 j = ''a.md'' \<and>
          callUpdates m3 j = [(''vk_status'', Some ''c'')] \<and>
          (\<forall>k. j < k \<and> k < calls m3 \<longrightarrow> callPath m3 k \<noteq> ''a.md'') \<longrightarrow>
        (idle m3 \<and> (\<forall>k e. WriteSettles k (Some e) \<in> set threeSucceed \<longrightarrow>
             callPath m3 k \<noteq> ''a.md'') \<longrightarrow>
           vault m3 ''a.md'' ''vk_status'' = Some ''c'')"
    by blast
  moreover have "(2::nat) < calls m3" by (simp add: c3)
  moreover have "\<forall>k. 2 < k \<and> k < calls m3 \<longrightarrow> callPath m3 k \<noteq> ''a.md''"
    unfolding c3 by arith
  ultimately have b3: "vault m3 ''a.md'' ''vk_status'' = Some ''c''"
    using c3(2,3,4) idl3 nf3 by blast
  have "runEvents (twoUpdates @ [ThenReaction 0, ThenReaction 1]) (newManager noVault) = None"
    by (simp add: manager_eval)
  moreover have "map_option report (runEvents bothSucceed (newManager noVault))
     = Some ([0, 1], Settled Fulfilled, Settled Fulfilled, Some ''b'')"
    using m rep by simp
  moreover have "map_option (\<lambda>m. (writeLog m, map (stage m) [0, 1, 2], vault m ''a.md'' ''vk_status''))
       (runEvents threeSucceed (newManager noVault))
     = Some ([0, 1, 2], [Settled Fulfilled, Settled Fulfilled, Settled Fulfilled], Some ''c'')"
    using m3 c3 b3 by simp
  ultimately show ?thesis using b sc by simp
qed

section \<open>Failure of a queued update\<close>

text \<open>
  \<^bold>\<open>C1\<close>, as stated, says that after a failed update every update queued behind it still
  performs its merge-write and that the failure reaches only the caller of the failed
  update. In the run where the first write fails, the second call never begins a write
  (the log holds call 0 only), the persisted status stays unset, and the second caller
  is rejected with the error of the first.
\<close>

theorem queued_update_skipped_after_failure:
  "map_option report (runEvents firstFails (newManager noVault))
     = Some ([0], Settled (Rejected ''EIO''), Settled (Rejected ''EIO''), None)"
  by (simp add: firstFails_def report_def manager_eval)

text \<open>
  \<^bold>\<open>C1\<close>, as amended. In every state that a run reaches from a new manager:
  \<^item> a call queued behind a promise that was rejected with error \<open>e\<close> has begun no
    merge-write, once it has left \<open>Chained\<close> its own outcome is the rejection \<open>e\<close>, and
    while it is \<open>Chained\<close> its reaction can only pass the rejection on;
  \<^item> a call that began a merge-write followed no promise or a fulfilled one;
  \<^item> a call that found no queue entry begins its merge-write when its reaction runs;
  \<^item> a call queued behind a promise that was fulfilled begins its merge-write when its
    reaction runs, and has begun it once it has left \<open>Chained\<close>; so has a call that found
    no queue entry;
  \<^item> a call of \<open>update\<close> for a path whose queue entry has been removed finds no promise,
    and its reaction begins its merge-write;
  \<^item> a merge-write that fails with \<open>e\<close> rejects the promise of its own call with \<open>e\<close> and
    changes no other call, no write and no document; the callback of \<open>finally\<close> and the
    settlement of \<open>updatePromise\<close> carry the outcome to the caller;
  \<^item> when nothing remains to run, every call has settled, the calls that performed a
    merge-write are exactly those that followed no promise or a fulfilled one, and a call
    queued behind a promise rejected with \<open>e\<close> has settled rejected with \<open>e\<close>;
  \<^item> the reactions and the writes can always run until nothing remains to run.
\<close>

theorem failure_propagates_down_the_chain:
  assumes "runEvents evs (newManager v) = Some m"
  shows "(\<forall>n<calls m. \<forall>q e.
            existingQueue m n = Some q \<and> stage m q = Settled (Rejected e) \<longrightarrow>
              n \<notin> set (writeLog m) \<and>
              (stage m n = Chained \<or> outcomeOf (stage m n) = Some (Rejected e)) \<and>
              (stage m n = Chained \<longrightarrow>
                 thenReaction n m = Some (m\<lparr>stage := (stage m)(n := ThenSettled (Rejected e))\<rparr>))) \<and>
         (\<forall>n<calls m. n \<in> set (writeLog m) \<longrightarrow>
            (\<forall>q. existingQueue m n = Some q \<longrightarrow> stage m q = Settled Fulfilled)) \<and>
         (\<forall>n<calls m. stage m n = Chained \<and> existingQueue m n = None \<longrightarrow>
            thenReaction n m = Some (beginWrite n m)) \<and>
         (\<forall>n<calls m. \<forall>q. existingQueue m n = Some q \<and> stage m q = Settled Fulfilled \<longrightarrow>
            (stage m n = Chained \<longrightarrow> thenReaction n m = Some (beginWrite n m)) \<and>
            (stage m n \<noteq> Chained \<longrightarrow> n \<in> set (writeLog m))) \<and>
         (\<forall>n<calls m. existingQueue m n = None \<and> stage m n \<noteq> Chained \<longrightarrow>
            n \<in> set (writeLog m)) \<and>
         (\<forall>p u. updateQueues m p = None \<longrightarrow>
            existingQueue (update p u m) (calls m) = None \<and>
            thenReaction (calls m) (update p u m)
              = Some (beginWrite (calls m) (update p u m))) \<and>
         (\<forall>n e m'. writeSettles n (Some e) m = Some m' \<longrightarrow>
            stage m' n = ThenSettled (Rejected e) \<and> (\<forall>k. k \<noteq> n \<longrightarrow> stage m' k = stage m k) \<and>
            writeLog m' = writeLog m \<and> vault m' = vault m) \<and>
         (\<forall>n<calls m. \<forall>out.
            (stage m n = ThenSettled out \<longrightarrow>
               map_option (\<lambda>m'. stage m' n) (finallyReaction n m) = Some (FinallyRun out)) \<and>
            (stage m n = FinallyRun out \<longrightarrow>
               map_option (\<lambda>m'. stage m' n) (settle n m) = Some (Settled out))) \<and>
         (idle m \<longrightarrow>
            (\<forall>n<calls m. (\<exists>out. stage m n = Settled out) \<and>
               (n \<in> set (writeLog m)) = mayWrite m n \<and>
               (\<forall>q e. existingQueue m n = Some q \<and> stage m q = Settled (Rejected e) \<longrightarrow>
                  stage m n = Settled (Rejected e)))) \<and>
         (\<exists>evs' m'. runEvents evs' m = Some m' \<and> idle m' \<and> (\<forall>p u. Update p u \<notin> set evs'))"
proof -
  from inv_run [OF inv_new assms] have l: "logOk m" and c: "chainOk m" by (simp_all add: inv_def)
  from l have w: "wrote (calls m) (existingQueue m) (stage m) (writeLog m)"
    and k: "skipped (calls m) (existingQueue m) (stage m) (writeLog m)"
    by (simp_all add: logOk_def)
  from c have li: "linked (calls m) (callPath m) (existingQueue m)" by (simp add: chainOk_def)
  have 1: "n \<notin> set (writeLog m) \<and>
        (stage m n = Chained \<or> outcomeOf (stage m n) = Some (Rejected e)) \<and>
        (stage m n = Chained \<longrightarrow>
           thenReaction n m = Some (m\<lparr>stage := (stage m)(n := ThenSettled (Rejected e))\<rparr>))"
    if n: "n < calls m" and q: "existingQueue m n = Some q" "stage m q = Settled (Rejected e)"
    for n q e
  proof -
    have a: "n \<notin> set (writeLog m)"
    proof
      assume "n \<in> set (writeLog m)"
      with w n q(1) have "stage m q = Settled Fulfilled" unfolding wrote_def by blast
      with q(2) show False by simp
    qed
    have b: "outcomeOf (stage m n) = Some (Rejected e)" if "stage m n \<noteq> Chained"
    proof -
      from k n a that obtain q' e' where "existingQueue m n = Some q'"
        "stage m q' = Settled (Rejected e')" "outcomeOf (stage m n) = Some (Rejected e')"
        unfolding skipped_def by blast
      with q show ?thesis by simp
    qed
    have c: "thenReaction n m = Some (m\<lparr>stage := (stage m)(n := ThenSettled (Rejected e))\<rparr>)"
      if "stage m n = Chained"
      using that n q by (simp add: thenReaction_def)
    from a b c show ?thesis by blast
  qed
  have 2: "\<forall>n<calls m. n \<in> set (writeLog m) \<longrightarrow>
      (\<forall>q. existingQueue m n = Some q \<longrightarrow> stage m q = Settled Fulfilled)"
    using w unfolding wrote_def by blast
  have 3: "\<forall>n<calls m. stage m n = Chained \<and> existingQueue m n = None \<longrightarrow>
      thenReaction n m = Some (beginWrite n m)"
    by (simp add: thenReaction_def)
  have 4: "\<forall>n<calls m. \<forall>q. existingQueue m n = Some q \<and> stage m q = Settled Fulfilled \<longrightarrow>
      (stage m n = Chained \<longrightarrow> thenReaction n m = Some (beginWrite n m)) \<and>
      (stage m n \<noteq> Chained \<longrightarrow> n \<in> set (writeLog m))"
  proof (intro allI impI)
    fix n q
    assume n: "n < calls m" and q: "existingQueue m n = Some q \<and> stage m q = Settled Fulfilled"
    then have mw: "mayWrite m n" by (simp add: mayWrite_def)
    from mayWrite_begins [OF n _ mw] left_chained_wrote [OF l n] mw
    show "(stage m n = Chained \<longrightarrow> thenReaction n m = Some (beginWrite n m)) \<and>
      (stage m n \<noteq> Chained \<longrightarrow> n \<in> set (writeLog m))"
      by blast
  qed
  have 5: "\<forall>n<calls m. existingQueue m n = None \<and> stage m n \<noteq> Chained \<longrightarrow>
      n \<in> set (writeLog m)"
  proof (intro allI impI)
    fix n
    assume n: "n < calls m" and q: "existingQueue m n = None \<and> stage m n \<noteq> Chained"
    then have "mayWrite m n" by (simp add: mayWrite_def)
    with left_chained_wrote [OF l n] q show "n \<in> set (writeLog m)" by blast
  qed
  have 6: "\<forall>p u. updateQueues m p = None \<longrightarrow>
      existingQueue (update p u m) (calls m) = None \<and>
      thenReaction (calls m) (update p u m) = Some (beginWrite (calls m) (update p u m))"
    by (simp add: update_def Let_def thenReaction_def)
  have 7: "\<forall>n e m'. writeSettles n (Some e) m = Some m' \<longrightarrow>
      stage m' n = ThenSettled (Rejected e) \<and> (\<forall>k. k \<noteq> n \<longrightarrow> stage m' k = stage m k) \<and>
      writeLog m' = writeLog m \<and> vault m' = vault m"
    by (auto elim!: writeSettles_cases)
  have 8: "\<forall>n<calls m. \<forall>out.
      (stage m n = ThenSettled out \<longrightarrow>
         map_option (\<lambda>m'. stage m' n) (finallyReaction n m) = Some (FinallyRun out)) \<and>
      (stage m n = FinallyRun out \<longrightarrow>
         map_option (\<lambda>m'. stage m' n) (settle n m) = Some (Settled out))"
    by (simp add: finallyReaction_def settle_def)
  have 9: "idle m \<longrightarrow>
      (\<forall>n<calls m. (\<exists>out. stage m n = Settled out) \<and>
         (n \<in> set (writeLog m)) = mayWrite m n \<and>
         (\<forall>q e. existingQueue m n = Some q \<and> stage m q = Settled (Rejected e) \<longrightarrow>
            stage m n = Settled (Rejected e)))"
  proof (intro allI impI)
    fix n
    assume i: "idle m" and n: "n < calls m"
    from idle_settled [OF li i n] obtain out where o: "stage m n = Settled out" by blast
    then have nc: "stage m n \<noteq> Chained" by simp
    have "stage m n = Settled (Rejected e)"
      if "existingQueue m n = Some q \<and> stage m q = Settled (Rejected e)" for q e
      using 1 [OF n, of q e] that o by auto
    with left_chained_wrote [OF l n nc] o
    show "(\<exists>out. stage m n = Settled out) \<and>
        (n \<in> set (writeLog m)) = mayWrite m n \<and>
        (\<forall>q e. existingQueue m n = Some q \<and> stage m q = Settled (Rejected e) \<longrightarrow>
           stage m n = Settled (Rejected e))"
      by blast
  qed
  from runs_dry [of m]
  have 10: "\<exists>evs' m'. runEvents evs' m = Some m' \<and> idle m' \<and> (\<forall>p u. Update p u \<notin> set evs')"
    by blast
  from 1 have n1: "\<forall>n<calls m. \<forall>q e.
      existingQueue m n = Some q \<and> stage m q = Settled (Rejected e) \<longrightarrow>
        n \<notin> set (writeLog m) \<and>
        (stage m n = Chained \<or> outcomeOf (stage m n) = Some (Rejected e)) \<and>
        (stage m n = Chained \<longrightarrow>
           thenReaction n m = Some (m\<lparr>stage := (stage m)(n := ThenSettled (Rejected e))\<rparr>))"
    by blast
  show ?thesis
    by (intro conjI) (rule n1 2 3 4 5 6 7 8 9 10)+
qed

text \<open>
  After the run where the first write fails, a third call finds no queue entry and its
  write begins: the log is 0, 2. After the run where the first write succeeds and settles,
  the reaction of the second call begins its write: the log is 0, 1.
\<close>

theorem failure_propagates_down_the_chain_witness:
  "map_option report3 (runEvents (firstFails @ [Update ''a.md'' [(''vk_status'', Some ''c'')],
       ThenReaction 2]) (newManager noVault))
     = Some ([0, 2], Some 0, None, Some 2,
             [Settled (Rejected ''EIO''), Settled (Rejected ''EIO''), Writing]) \<and>
   map_option report (runEvents (firstSucceeds @ [ThenReaction 1]) (newManager noVault))
     = Some ([0, 1], Settled Fulfilled, Writing, Some ''a'')"
proof -
  let ?evs = "firstFails @ [Update ''a.md'' [(''vk_status'', Some ''c'')], ThenReaction 2]"
  have r: "map_option report3 (runEvents ?evs (newManager noVault))
     = Some ([0, 2], Some 0, None, Some 2,
             [Settled (Rejected ''EIO''), Settled (Rejected ''EIO''), Writing])"
    by (simp add: firstFails_def report3_def manager_eval)
  then obtain m where m: "runEvents ?evs (newManager noVault) = Some m" by auto
  note a = failure_propagates_down_the_chain [OF m]
  have s: "map_option (\<lambda>m. (calls m, existingQueue m 1, stage m 0, stage m 1, writeLog m,
          vault m ''a.md'' ''vk_status''))
        (runEvents firstSucceeds (newManager noVault))
     = Some (2, Some 0, Settled Fulfilled, Chained, [0], Some ''a'')"
    by (simp add: firstSucceeds_def manager_eval)
  then obtain m1 where m1: "runEvents firstSucceeds (newManager noVault) = Some m1"
    and c: "calls m1 = 2" "existingQueue m1 1 = Some 0" "stage m1 0 = Settled Fulfilled"
      "stage m1 1 = Chained" "writeLog m1 = [0]" "vault m1 ''a.md'' ''vk_status'' = Some ''a''"
    by auto
  have "(1::nat) < calls m1" by (simp add: c)
  with failure_propagates_down_the_chain [OF m1] c(2,3,4)
  have t: "thenReaction 1 m1 = Some (beginWrite 1 m1)" by blast
  have "map_option report (runEvents (firstSucceeds @ [ThenReaction 1]) (newManager noVault))
     = Some ([0, 1], Settled Fulfilled, Writing, Some ''a'')"
    using m1 t c by (simp add: run_append report_def beginWrite_def)
  with r a show ?thesis by simp
qed

section \<open>The merge of the fields\<close>

text \<open>
  \<^bold>\<open>C9\<close>. When the merge-write of a call succeeds in a reachable state, every field that
  its \<open>updates\<close> leave undefined or do not mention keeps its persisted value, every field
  they define (the keys of an object are distinct) is persisted with the value given, and
  the frontmatter of every other path is unchanged. The callback alone has the same frame.
\<close>

theorem merge_leaves_other_fields:
  assumes "runEvents evs (newManager v) = Some m" and "writeSettles n None m = Some m'"
  shows "(\<forall>k. (\<forall>x. (k, Some x) \<notin> set (callUpdates m n)) \<longrightarrow>
            vault m' (callPath m n) k = vault m (callPath m n) k) \<and>
         (distinct (map fst (callUpdates m n)) \<longrightarrow>
            (\<forall>k x. (k, Some x) \<in> set (callUpdates m n) \<longrightarrow>
               vault m' (callPath m n) k = Some x)) \<and>
         (\<forall>p. p \<noteq> callPath m n \<longrightarrow> vault m' p = vault m p) \<and>
         (\<forall>fm k. (\<forall>x. (k, Some x) \<notin> set us) \<longrightarrow> mergeFields us fm k = fm k)"
proof -
  from inv_run [OF inv_new assms(1)] have s: "snapOk m" by (simp add: inv_def)
  from assms(2) have n: "n < calls m" "stage m n = Writing"
    and m': "m' = m\<lparr>vault := (vault m)(callPath m n :=
                        mergeFields (callUpdates m n) (snapshot m n)),
                    stage := (stage m)(n := ThenSettled Fulfilled)\<rparr>"
    by (auto elim: writeSettles_cases)
  from s n have snap: "snapshot m n = vault m (callPath m n)" unfolding snapOk_def by blast
  have v: "vault m' (callPath m n) = mergeFields (callUpdates m n) (vault m (callPath m n))"
    by (simp add: m' snap)
  have 1: "vault m' (callPath m n) k = vault m (callPath m n) k"
    if "\<forall>x. (k, Some x) \<notin> set (callUpdates m n)" for k
    using that lastDefined_None [of "callUpdates m n" k] by (simp add: v mergeFields_apply)
  have 2: "vault m' (callPath m n) k = Some x"
    if "distinct (map fst (callUpdates m n))" "(k, Some x) \<in> set (callUpdates m n)" for k x
    using lastDefined_Some [OF that] by (simp add: v mergeFields_apply)
  have 3: "vault m' p = vault m p" if "p \<noteq> callPath m n" for p
    using that by (simp add: m')
  have 4: "mergeFields us fm k = fm k" if "\<forall>x. (k, Some x) \<notin> set us" for fm k
    using that lastDefined_None [of us k] by (simp add: mergeFields_apply)
  from 1 2 3 4 show ?thesis by blast
qed

text \<open>
  The status is written, the branch (undefined in the update), the title and the absent
  field keep their values.
\<close>

theorem merge_leaves_other_fields_witness:
  "map_option (\<lambda>m. map (vault m ''a.md'') [''title'', ''vk_status'', ''vk_branch'', ''vk_pr_url''])
     (runEvents (oneWriting @ [WriteSettles 0 None]) (newManager noteVault))
     = Some [Some ''Note'', Some ''done'', Some ''main'', None]"
proof -
  have r: "map_option (\<lambda>m. (callPath m 0, callUpdates m 0, map (vault m ''a.md'')
        [''title'', ''vk_status'', ''vk_branch'', ''vk_pr_url'']))
      (runEvents oneWriting (newManager noteVault))
     = Some (''a.md'', [(''vk_status'', Some ''done''), (''vk_branch'', None)],
             [Some ''Note'', Some ''todo'', Some ''main'', None])"
    by (simp add: oneWriting_def noteVault_def manager_eval)
  then obtain m where m: "runEvents oneWriting (newManager noteVault) = Some m"
    and c: "callPath m 0 = ''a.md''"
      "callUpdates m 0 = [(''vk_status'', Some ''done''), (''vk_branch'', None)]"
      "vault m ''a.md'' ''title'' = Some ''Note''" "vault m ''a.md'' ''vk_branch'' = Some ''main''"
      "vault m ''a.md'' ''vk_pr_url'' = None"
    by auto
  have "writeSettles 0 None m \<noteq> None"
    using r m by (auto simp: writeSettles_def oneWriting_def noteVault_def manager_eval)
  then obtain m' where m': "writeSettles 0 None m = Some m'" by auto
  have run': "runEvents (oneWriting @ [WriteSettles 0 None]) (newManager noteVault) = Some m'"
    using m m' by (simp add: run_append)
  from merge_leaves_other_fields [OF m m', of "[]"] c
  have "vault m' ''a.md'' ''title'' = Some ''Note''" "vault m' ''a.md'' ''vk_branch'' = Some ''main''"
    "vault m' ''a.md'' ''vk_pr_url'' = None" "vault m' ''a.md'' ''vk_status'' = Some ''done''"
    by auto
  with run' show ?thesis by simp
qed

end
